theory Spec2Isabelle
  imports Complex_Main
begin

section \<open>Token bucket rate limiters\<close>

text \<open>
  The repository holds several independent sample programs. Two rate limiters are
  embedded here: the multi-bucket registry \<open>TokenBucketRateLimiter\<close>
  (deepseek-r1/rate-limiter/run-010) and the single-bucket class \<open>TokenBucket\<close>
  (deepseek-r1/rate-limiter/run-009).

  A TypeScript \<open>number\<close> is modelled as an exact \<open>real\<close>: rounding of IEEE doubles,
  \<open>NaN\<close> and the infinities are outside the model. Every reading of \<open>Date.now()\<close>
  is a parameter of the function that makes it, so clocks that stand still, advance or
  run backwards are all covered. A thrown \<open>Error\<close> is the \<open>Inl\<close> branch of a sum,
  with one constructor for each message of the source.
\<close>

datatype rl_error =
    BucketKeyEmpty
  | TokensRequiredNotPositive
  | CapacityNotPositive
  | RefillRateNotPositive
  | InitialTokensNegative
  | InitialTokensExceedCapacity
  | LastRefillInFuture
  | BucketMissingNoConfig
  | BucketDoesNotExist
  | TokensToAddNotPositive
  | TokensToConsumeNotPositive
  | ExceedsCapacity

subsection \<open>The registry \<open>TokenBucketRateLimiter\<close> (run-010)\<close>

record TokenBucketConfig =
  capacity :: real
  refillRate :: real
  initialTokens :: "real option"

record BucketStats =
  tokens :: real
  consumed :: real
  blocked :: real
  lastRefill :: real
  createdAt :: real
  config :: TokenBucketConfig

record RateLimitResult =
  allowed :: bool
  remainingTokens :: real
  retryAfter :: "int option"
  bucketKey :: string

type_synonym buckets = "string \<rightharpoonup> BucketStats"

text \<open>\<open>x || d\<close> on an optional number: \<open>undefined\<close> and \<open>0\<close> are both falsy.\<close>

definition or_default :: "real option \<Rightarrow> real \<Rightarrow> real" where
  "or_default x d = (case x of None \<Rightarrow> d | Some v \<Rightarrow> if v = 0 then d else v)"

text \<open>\<open>x ?? d\<close> on an optional number: only \<open>undefined\<close> takes the default.\<close>

definition nullish_default :: "real option \<Rightarrow> real \<Rightarrow> real" where
  "nullish_default x d = (case x of None \<Rightarrow> d | Some v \<Rightarrow> v)"

text \<open>The code units below 256 that \<open>String.prototype.trim\<close> removes.\<close>

definition is_js_space :: "char \<Rightarrow> bool" where
  "is_js_space c = (of_char c \<in> {9, 10, 11, 12, 13, 32, 160 :: nat})"

definition trim_is_empty :: "string \<Rightarrow> bool" where
  "trim_is_empty s = list_all is_js_space s"

definition validateConfig :: "TokenBucketConfig \<Rightarrow> rl_error option" where
  "validateConfig c =
     (if capacity c \<le> 0 then Some CapacityNotPositive
      else if refillRate c \<le> 0 then Some RefillRateNotPositive
      else (case initialTokens c of
              None \<Rightarrow> None
            | Some i \<Rightarrow>
                if i < 0 then Some InitialTokensNegative
                else if i > capacity c then Some InitialTokensExceedCapacity
                else None))"

definition validateInput :: "string \<Rightarrow> real \<Rightarrow> TokenBucketConfig option \<Rightarrow> rl_error option" where
  "validateInput key tokensRequired cfg =
     (if key = [] \<or> trim_is_empty key then Some BucketKeyEmpty
      else if tokensRequired \<le> 0 then Some TokensRequiredNotPositive
      else (case cfg of None \<Rightarrow> None | Some c \<Rightarrow> validateConfig c))"

definition createBucket ::
  "buckets \<Rightarrow> string \<Rightarrow> TokenBucketConfig \<Rightarrow> real \<Rightarrow> rl_error + (BucketStats \<times> buckets)" where
  "createBucket bs key c now =
     (case validateConfig c of
        Some e \<Rightarrow> Inl e
      | None \<Rightarrow>
          (let bucket = \<lparr> tokens = or_default (initialTokens c) (capacity c),
                          consumed = 0, blocked = 0, lastRefill = now, createdAt = now,
                          config = c \<rparr>
           in Inr (bucket, bs(key \<mapsto> bucket))))"

definition refillBucket :: "BucketStats \<Rightarrow> real \<Rightarrow> BucketStats" where
  "refillBucket b now =
     (let elapsedSeconds = (now - lastRefill b) / 1000;
          tokensToAdd = elapsedSeconds * refillRate (config b)
      in if tokensToAdd > 0
         then b\<lparr> tokens := min (tokens b + tokensToAdd) (capacity (config b)),
                 lastRefill := now \<rparr>
         else b)"

definition calculateRetryAfter :: "BucketStats \<Rightarrow> real \<Rightarrow> int" where
  "calculateRetryAfter b tokensRequired =
     (let tokensNeeded = tokensRequired - tokens b;
          secondsNeeded = tokensNeeded / refillRate (config b)
      in \<lceil>secondsNeeded\<rceil>)"

text \<open>
  \<open>check\<close> reads the clock once itself (\<open>now\<close>) and, when it has to create the
  bucket, once more inside \<open>createBucket\<close> (\<open>nowCreate\<close>).
\<close>

definition check ::
  "buckets \<Rightarrow> string \<Rightarrow> real \<Rightarrow> TokenBucketConfig option \<Rightarrow> real \<Rightarrow> real
     \<Rightarrow> rl_error + (RateLimitResult \<times> buckets)" where
  "check bs key tokensRequired cfg now nowCreate =
     (case validateInput key tokensRequired cfg of
        Some e \<Rightarrow> Inl e
      | None \<Rightarrow>
          (case (case bs key of
                   Some b \<Rightarrow> Inr (b, bs)
                 | None \<Rightarrow>
                     (case cfg of
                        Some c \<Rightarrow> createBucket bs key c nowCreate
                      | None \<Rightarrow> Inl BucketMissingNoConfig)) of
             Inl e \<Rightarrow> Inl e
           | Inr (bucket, bs1) \<Rightarrow>
               (let b1 = refillBucket bucket now;
                    ok = (tokens b1 \<ge> tokensRequired);
                    b2 = (if ok
                          then b1\<lparr> tokens := tokens b1 - tokensRequired,
                                   consumed := consumed b1 + tokensRequired \<rparr>
                          else b1\<lparr> blocked := blocked b1 + 1 \<rparr>)
                in Inr (\<lparr> allowed = ok,
                          remainingTokens = tokens b2,
                          retryAfter = (if ok then None
                                        else Some (calculateRetryAfter b2 tokensRequired)),
                          bucketKey = key \<rparr>,
                        bs1(key \<mapsto> b2)))))"

definition addTokens :: "buckets \<Rightarrow> string \<Rightarrow> real \<Rightarrow> rl_error + (real \<times> buckets)" where
  "addTokens bs key n =
     (if n \<le> 0 then Inl TokensToAddNotPositive
      else (case bs key of
              None \<Rightarrow> Inl BucketDoesNotExist
            | Some b \<Rightarrow>
                (let newTokens = min (tokens b + n) (capacity (config b))
                 in Inr (newTokens, bs(key \<mapsto> b\<lparr> tokens := newTokens \<rparr>)))))"

definition resetBucket :: "buckets \<Rightarrow> string \<Rightarrow> real \<Rightarrow> rl_error + buckets" where
  "resetBucket bs key now =
     (case bs key of
        None \<Rightarrow> Inl BucketDoesNotExist
      | Some b \<Rightarrow>
          Inr (bs(key \<mapsto> b\<lparr> tokens := or_default (initialTokens (config b)) (capacity (config b)),
                             consumed := 0, blocked := 0, lastRefill := now \<rparr>)))"

text \<open>
  A caller's view of the registry: a call that throws leaves the registry as it was
  (every \<open>throw\<close> of \<open>check\<close> and \<open>addTokens\<close> comes before the first write).
\<close>

datatype registry_op =
    Check string real "TokenBucketConfig option" real real
  | AddTokens string real

fun registry_step :: "buckets \<Rightarrow> registry_op \<Rightarrow> buckets" where
  "registry_step bs (Check key n cfg now nowCreate) =
     (case check bs key n cfg now nowCreate of Inl e \<Rightarrow> bs | Inr (r, bs') \<Rightarrow> bs')"
| "registry_step bs (AddTokens key n) =
     (case addTokens bs key n of Inl e \<Rightarrow> bs | Inr (r, bs') \<Rightarrow> bs')"

text \<open>The registry after each operation of a sequence, in order.\<close>

fun registry_trace :: "buckets \<Rightarrow> registry_op list \<Rightarrow> buckets list" where
  "registry_trace bs [] = []"
| "registry_trace bs (x # xs) = registry_step bs x # registry_trace (registry_step bs x) xs"

definition bucket_in_range :: "BucketStats \<Rightarrow> bool" where
  "bucket_in_range b = (0 \<le> tokens b \<and> tokens b \<le> capacity (config b))"

definition registry_in_range :: "buckets \<Rightarrow> bool" where
  "registry_in_range bs = (\<forall>k b. bs k = Some b \<longrightarrow> bucket_in_range b)"

subsection \<open>The class \<open>TokenBucket\<close> (run-009)\<close>

text \<open>
  The second program declares interfaces of the same names with other fields; its
  records carry a prefix to keep the two apart.

  \<open>tryConsume\<close> and \<open>addTokens\<close> are \<open>async\<close>: the argument checks run at the
  call and the body runs as one callback of the resolved promise \<open>lock\<close>, which
  nothing interrupts. The checks read only the capacity, which neither operation
  changes, so a call is one step from the bucket before it to the bucket after it.
\<close>

record TokenBucketConfig_tb =
  cfg_capacity :: real
  cfg_refillRate :: real
  cfg_initialTokens :: "real option"
  cfg_lastRefillTime :: "real option"

record TokenBucket =
  tb_tokens :: real
  tb_lastRefillTime :: real
  tb_capacity :: real
  tb_refillRate :: real

record RateLimitResult_tb =
  res_allowed :: bool
  res_remainingTokens :: real
  res_retryAfter :: "int option"
  res_limit :: real
  res_resetTime :: real

definition validateConfig_tb :: "TokenBucketConfig_tb \<Rightarrow> real \<Rightarrow> rl_error option" where
  "validateConfig_tb c now =
     (if cfg_capacity c \<le> 0 then Some CapacityNotPositive
      else if cfg_refillRate c \<le> 0 then Some RefillRateNotPositive
      else (case (case cfg_initialTokens c of
                    None \<Rightarrow> None
                  | Some i \<Rightarrow>
                      if i < 0 then Some InitialTokensNegative
                      else if i > cfg_capacity c then Some InitialTokensExceedCapacity
                      else None) of
              Some e \<Rightarrow> Some e
            | None \<Rightarrow>
                (case cfg_lastRefillTime c of
                   None \<Rightarrow> None
                 | Some t \<Rightarrow> if t > now then Some LastRefillInFuture else None)))"

text \<open>The constructor reads the clock in \<open>validateConfig\<close> and again for the default.\<close>

definition new_TokenBucket :: "TokenBucketConfig_tb \<Rightarrow> real \<Rightarrow> real \<Rightarrow> rl_error + TokenBucket" where
  "new_TokenBucket c nowValidate nowInit =
     (case validateConfig_tb c nowValidate of
        Some e \<Rightarrow> Inl e
      | None \<Rightarrow>
          Inr \<lparr> tb_tokens = nullish_default (cfg_initialTokens c) (cfg_capacity c),
                tb_lastRefillTime = nullish_default (cfg_lastRefillTime c) nowInit,
                tb_capacity = cfg_capacity c,
                tb_refillRate = cfg_refillRate c \<rparr>)"

definition refill :: "TokenBucket \<Rightarrow> real \<Rightarrow> TokenBucket" where
  "refill b now =
     (let timeElapsedMs = now - tb_lastRefillTime b
      in if timeElapsedMs \<le> 0 then b
         else (let tokensToAdd = (timeElapsedMs / 1000) * tb_refillRate b
               in b\<lparr> tb_tokens := min (tb_capacity b) (tb_tokens b + tokensToAdd),
                       tb_lastRefillTime := now \<rparr>))"

definition tryConsume :: "TokenBucket \<Rightarrow> real \<Rightarrow> real \<Rightarrow> rl_error + (RateLimitResult_tb \<times> TokenBucket)" where
  "tryConsume b tokensToConsume now =
     (if tokensToConsume \<le> 0 then Inl TokensToConsumeNotPositive
      else if tokensToConsume > tb_capacity b then Inl ExceedsCapacity
      else (let b1 = refill b now
            in if tb_tokens b1 \<ge> tokensToConsume
               then (let b2 = b1\<lparr> tb_tokens := tb_tokens b1 - tokensToConsume \<rparr>;
                         remaining = tb_tokens b2;
                         nextRefillTime = tb_lastRefillTime b2 + 1000 / tb_refillRate b2
                     in Inr (\<lparr> res_allowed = True, res_remainingTokens = remaining,
                               res_retryAfter = None, res_limit = tb_capacity b2,
                               res_resetTime = nextRefillTime \<rparr>, b2))
               else (let tokensNeeded = tokensToConsume - tb_tokens b1;
                         timeToWaitMs = (tokensNeeded / tb_refillRate b1) * 1000
                     in Inr (\<lparr> res_allowed = False, res_remainingTokens = tb_tokens b1,
                               res_retryAfter = Some \<lceil>timeToWaitMs / 1000\<rceil>,
                               res_limit = tb_capacity b1,
                               res_resetTime = tb_lastRefillTime b1 + timeToWaitMs \<rparr>, b1))))"

definition addTokens_tb :: "TokenBucket \<Rightarrow> real \<Rightarrow> rl_error + (real \<times> TokenBucket)" where
  "addTokens_tb b tokensToAdd =
     (if tokensToAdd \<le> 0 then Inl TokensToAddNotPositive
      else (let b' = b\<lparr> tb_tokens := min (tb_capacity b) (tb_tokens b + tokensToAdd) \<rparr>
            in Inr (tb_tokens b', b')))"

datatype bucket_op = TryConsume real real | AddTokens_tb real

fun bucket_step :: "TokenBucket \<Rightarrow> bucket_op \<Rightarrow> TokenBucket" where
  "bucket_step b (TryConsume n now) =
     (case tryConsume b n now of Inl e \<Rightarrow> b | Inr (r, b') \<Rightarrow> b')"
| "bucket_step b (AddTokens_tb n) =
     (case addTokens_tb b n of Inl e \<Rightarrow> b | Inr (r, b') \<Rightarrow> b')"

fun bucket_trace :: "TokenBucket \<Rightarrow> bucket_op list \<Rightarrow> TokenBucket list" where
  "bucket_trace b [] = []"
| "bucket_trace b (x # xs) = bucket_step b x # bucket_trace (bucket_step b x) xs"

definition tb_in_range :: "TokenBucket \<Rightarrow> bool" where
  "tb_in_range b = (0 \<le> tb_tokens b \<and> tb_tokens b \<le> tb_capacity b)"

section \<open>URL shortener\<close>

text \<open>
  The class \<open>URLShortener\<close> of the file \<open>url-shortener.ts\<close>. Its three
  \<open>Map\<close>s are partial functions on strings. A string is a list of 8-bit characters,
  read as UTF-16 code units below 256. The platform's \<open>URL\<close> parser is not part of
  the repository: it is the parameter \<open>parseUrl\<close>, which returns the protocol and the
  host name of a string that parses. The readings of \<open>Date.now()\<close> and of
  \<open>Math.random().toString(36)\<close> that a call makes are the fields of an
  \<open>environment\<close>. A thrown \<open>URLShortenerError\<close> is the \<open>Inl\<close> branch of a sum,
  named by its error code.
\<close>

datatype us_error =
    INVALID_BASE_DOMAIN
  | ALIAS_COLLISION
  | COLLISION_RESOLUTION_FAILED
  | INVALID_ALIAS_LENGTH
  | INVALID_URL_TYPE
  | INVALID_URL_FORMAT
  | URL_TOO_LONG
  | SHORTEN_FAILED
  | NOT_FOUND
  | DATA_CORRUPTED
  | INVALID_SHORT_CODE_TYPE
  | SHORT_CODE_TOO_LONG
  | INVALID_SHORT_CODE_CHARS

fun error_message :: "us_error \<Rightarrow> string" where
  "error_message INVALID_BASE_DOMAIN = ''Invalid base domain''"
| "error_message ALIAS_COLLISION = ''Custom alias already in use''"
| "error_message COLLISION_RESOLUTION_FAILED = ''Unable to resolve collision after maximum retries''"
| "error_message INVALID_ALIAS_LENGTH = ''Custom alias must be at least 2 characters''"
| "error_message INVALID_URL_TYPE = ''URL must be a non-empty string''"
| "error_message INVALID_URL_FORMAT = ''Invalid URL format''"
| "error_message URL_TOO_LONG = ''URL too long''"
| "error_message SHORTEN_FAILED = ''Failed to shorten URL''"
| "error_message NOT_FOUND = ''Short URL not found''"
| "error_message DATA_CORRUPTED = ''Short URL data corrupted''"
| "error_message INVALID_SHORT_CODE_TYPE = ''Short code must be a non-empty string''"
| "error_message SHORT_CODE_TOO_LONG = ''Short code too long''"
| "error_message INVALID_SHORT_CODE_CHARS =
     ''Short code can only contain letters, numbers, dashes, and underscores''"

record ShortenedUrl =
  id_url :: string
  originalUrl :: string
  shortCode :: string
  createdAt_url :: nat
  clickCount :: nat

record ShortenOptions =
  customAlias :: "string option"
  expireAfterDays :: "real option"

record ShortenResult =
  sr_success :: bool
  sr_shortCode :: string
  sr_shortUrl :: string
  sr_originalUrl :: string
  sr_message :: "string option"
  sr_collisionResolved :: "bool option"

record ExpandResult =
  er_success :: bool
  er_originalUrl :: "string option"
  er_message :: "string option"

record URLShortener =
  urlMap :: "string \<rightharpoonup> ShortenedUrl"
  codeToIdMap :: "string \<rightharpoonup> string"
  originalUrlToCodeMap :: "string \<rightharpoonup> string"
  BASE_DOMAIN :: string

record environment =
  loopNow :: "nat \<Rightarrow> nat"
  loopRandom :: "nat \<Rightarrow> string"
  idNow :: nat
  idRandom :: string
  createdNow :: nat

definition BASE62_CHARS :: string where
  "BASE62_CHARS = ''0123456789ABCDEFGHIJKLMNOPQRSTUVWXYZabcdefghijklmnopqrstuvwxyz''"

definition DEFAULT_SHORT_CODE_LENGTH :: nat where
  "DEFAULT_SHORT_CODE_LENGTH = 6"

definition MAX_COLLISION_RETRIES :: nat where
  "MAX_COLLISION_RETRIES = 5"

definition MAX_CUSTOM_ALIAS_LENGTH :: nat where
  "MAX_CUSTOM_ALIAS_LENGTH = 20"

subsection \<open>Strings and numbers of the platform\<close>

text \<open>A string in a condition: \<open>undefined\<close> and the empty string are both falsy.\<close>

definition truthy :: "string option \<Rightarrow> string option" where
  "truthy x = (case x of None \<Rightarrow> None | Some v \<Rightarrow> if v = [] then None else Some v)"

text \<open>\<open>s.substring(a, b)\<close> for \<open>a \<le> b\<close>, \<open>s.slice(0, -2)\<close> and \<open>s.slice(-2)\<close>.\<close>

definition substring :: "string \<Rightarrow> nat \<Rightarrow> nat \<Rightarrow> string" where
  "substring s a b = take (b - a) (drop a s)"

definition slice_to_minus2 :: "string \<Rightarrow> string" where
  "slice_to_minus2 s = take (length s - 2) s"

definition slice_from_minus2 :: "string \<Rightarrow> string" where
  "slice_from_minus2 s = drop (length s - 2) s"

definition padEnd :: "string \<Rightarrow> nat \<Rightarrow> char \<Rightarrow> string" where
  "padEnd s n c = s @ replicate (n - length s) c"

text \<open>\<open>n.toString(radix)\<close> for a non-negative integer, with the digits \<open>0-9a-z\<close>.\<close>

definition radix_digit :: "nat \<Rightarrow> char" where
  "radix_digit d = ''0123456789abcdefghijklmnopqrstuvwxyz'' ! d"

function toStringRadix :: "nat \<Rightarrow> nat \<Rightarrow> string" where
  "toStringRadix radix n =
     (if radix < 2 \<or> n < radix then [radix_digit n]
      else toStringRadix radix (n div radix) @ [radix_digit (n mod radix)])"
  by pat_completeness auto
termination
  by (relation "measure (\<lambda>(radix, n). n)") auto

declare toStringRadix.simps [simp del]

text \<open>
  \<open>c.toLowerCase()\<close> on the letters \<open>A-Z\<close>. The other code units below 256 that
  it changes are mapped to code units outside \<open>a-z\<close>, which \<open>normalizeCustomAlias\<close>
  removes in either form.
\<close>

definition toLowerCase :: "string \<Rightarrow> string" where
  "toLowerCase s =
     map (\<lambda>c. if 65 \<le> (of_char c :: nat) \<and> (of_char c :: nat) \<le> 90
               then char_of ((of_char c :: nat) + 32) else c) s"

text \<open>The character classes \<open>[a-z0-9-_]\<close> and \<open>[a-zA-Z0-9-_]\<close>.\<close>

definition alias_char :: "char \<Rightarrow> bool" where
  "alias_char c =
     (let n = (of_char c :: nat)
      in (97 \<le> n \<and> n \<le> 122) \<or> (48 \<le> n \<and> n \<le> 57) \<or> n = 45 \<or> n = 95)"

definition code_char :: "char \<Rightarrow> bool" where
  "code_char c =
     (let n = (of_char c :: nat)
      in (97 \<le> n \<and> n \<le> 122) \<or> (65 \<le> n \<and> n \<le> 90) \<or> (48 \<le> n \<and> n \<le> 57) \<or>
         n = 45 \<or> n = 95)"

text \<open>\<open>x | 0\<close>, \<open>x & x\<close> and the result of \<open>x << 5\<close>: a signed 32-bit integer.\<close>

definition toInt32 :: "int \<Rightarrow> int" where
  "toInt32 x = (x + 2 ^ 31) mod 2 ^ 32 - 2 ^ 31"

subsection \<open>Validation\<close>

definition isValidUrl :: "(string \<Rightarrow> (string \<times> string) option) \<Rightarrow> string \<Rightarrow> bool" where
  "isValidUrl parseUrl url =
     (case parseUrl url of
        None \<Rightarrow> False
      | Some (protocol0, hostname) \<Rightarrow>
          (let protocol = toLowerCase protocol0
           in if protocol \<notin> set [''http:'', ''https:'', ''ftp:'', ''mailto:''] then False
              else if protocol \<noteq> ''mailto:'' \<and> hostname = [] then False
              else True))"

definition validateUrl :: "(string \<Rightarrow> (string \<times> string) option) \<Rightarrow> string \<Rightarrow> us_error option" where
  "validateUrl parseUrl url =
     (if url = [] then Some INVALID_URL_TYPE
      else if \<not> isValidUrl parseUrl url then Some INVALID_URL_FORMAT
      else if length url > 2048 then Some URL_TOO_LONG
      else None)"

definition validateShortCode :: "string \<Rightarrow> us_error option" where
  "validateShortCode code =
     (if code = [] then Some INVALID_SHORT_CODE_TYPE
      else if length code > MAX_CUSTOM_ALIAS_LENGTH then Some SHORT_CODE_TOO_LONG
      else if \<not> list_all code_char code then Some INVALID_SHORT_CODE_CHARS
      else None)"

definition normalizeCustomAlias :: "string \<Rightarrow> us_error + string" where
  "normalizeCustomAlias alias =
     (let normalized = substring (filter alias_char (toLowerCase alias)) 0 MAX_CUSTOM_ALIAS_LENGTH
      in if length normalized < 2 then Inl INVALID_ALIAS_LENGTH else Inr normalized)"

subsection \<open>Code generation\<close>

definition hash_step :: "int \<Rightarrow> char \<Rightarrow> int" where
  "hash_step hash c = toInt32 ((toInt32 (hash * 2 ^ 5) - hash) + of_char c)"

definition generateHash :: "string \<Rightarrow> nat" where
  "generateHash input = nat \<bar>foldl hash_step 0 input\<bar>"

function encodeBase62_loop :: "nat \<Rightarrow> string \<Rightarrow> string" where
  "encodeBase62_loop n result =
     (if n > 0 then encodeBase62_loop (n div 62) (BASE62_CHARS ! (n mod 62) # result)
      else result)"
  by pat_completeness auto
termination
  by (relation "measure (\<lambda>(n, result). n)") auto

declare encodeBase62_loop.simps [simp del]

definition encodeBase62 :: "nat \<Rightarrow> string" where
  "encodeBase62 num = (if num = 0 then ''0'' else encodeBase62_loop num [])"

definition generateUniqueShortCode :: "string \<Rightarrow> string" where
  "generateUniqueShortCode url =
     (let hash = generateHash url;
          code = substring (encodeBase62 hash) 0 DEFAULT_SHORT_CODE_LENGTH
      in if length code < DEFAULT_SHORT_CODE_LENGTH
         then padEnd code DEFAULT_SHORT_CODE_LENGTH (CHR ''0'')
         else code)"

definition generateId :: "environment \<Rightarrow> string" where
  "generateId env = toStringRadix 10 (idNow env) @ ''-'' @ substring (idRandom env) 2 9"

text \<open>
  The loop of \<open>resolveCollision\<close>, started with \<open>attempts = 0\<close>. It returns the
  result together with the final value of the local counter \<open>attempts\<close>. Round \<open>k\<close>
  reads the clock and the random generator of the environment at index \<open>k\<close>.
\<close>

function resolveCollision_loop ::
  "URLShortener \<Rightarrow> string \<Rightarrow> string \<Rightarrow> environment \<Rightarrow> nat \<Rightarrow> (us_error + string) \<times> nat" where
  "resolveCollision_loop s existingCode url env attempts =
     (if attempts < MAX_COLLISION_RETRIES
      then (let attempts1 = attempts + 1;
                timestampSuffix = slice_from_minus2 (toStringRadix 36 (loopNow env attempts1));
                candidate1 = slice_to_minus2 existingCode @ timestampSuffix
            in if codeToIdMap s candidate1 = None then (Inr candidate1, attempts1)
               else (let hash = generateHash (url @ toStringRadix 10 attempts1);
                         candidate2 = substring (encodeBase62 hash) 0 DEFAULT_SHORT_CODE_LENGTH
                     in if codeToIdMap s candidate2 = None then (Inr candidate2, attempts1)
                        else (let randomSuffix = substring (loopRandom env attempts1) 2 4;
                                  candidate3 = slice_to_minus2 existingCode @ randomSuffix
                              in if codeToIdMap s candidate3 = None
                                 then (Inr candidate3, attempts1)
                                 else resolveCollision_loop s existingCode url env
                                        attempts1)))
      else (Inl COLLISION_RESOLUTION_FAILED, attempts))"
  by pat_completeness auto
termination
  by (relation "measure (\<lambda>(s, existingCode, url, env, attempts).
                            MAX_COLLISION_RETRIES - attempts)") auto

declare resolveCollision_loop.simps [simp del]

definition resolveCollision ::
  "URLShortener \<Rightarrow> string \<Rightarrow> string \<Rightarrow> environment \<Rightarrow> us_error + string" where
  "resolveCollision s existingCode url env =
     fst (resolveCollision_loop s existingCode url env 0)"

text \<open>The three candidate codes that round \<open>k\<close> of the loop tries, in order.\<close>

definition round_candidates :: "string \<Rightarrow> string \<Rightarrow> environment \<Rightarrow> nat \<Rightarrow> string list" where
  "round_candidates existingCode url env k =
     [slice_to_minus2 existingCode @ slice_from_minus2 (toStringRadix 36 (loopNow env k)),
      substring (encodeBase62 (generateHash (url @ toStringRadix 10 k))) 0
        DEFAULT_SHORT_CODE_LENGTH,
      slice_to_minus2 existingCode @ substring (loopRandom env k) 2 4]"

text \<open>Every candidate of round \<open>k\<close> is already assigned.\<close>

definition round_taken :: "URLShortener \<Rightarrow> string \<Rightarrow> string \<Rightarrow> environment \<Rightarrow> nat \<Rightarrow> bool" where
  "round_taken s existingCode url env k =
     list_all (\<lambda>c. codeToIdMap s c \<noteq> None) (round_candidates existingCode url env k)"

subsection \<open>Operations\<close>

definition new_URLShortener ::
  "(string \<Rightarrow> (string \<times> string) option) \<Rightarrow> string \<Rightarrow> us_error + URLShortener" where
  "new_URLShortener parseUrl baseDomain =
     (if \<not> isValidUrl parseUrl baseDomain then Inl INVALID_BASE_DOMAIN
      else Inr \<lparr> urlMap = Map.empty, codeToIdMap = Map.empty,
                 originalUrlToCodeMap = Map.empty,
                 BASE_DOMAIN = (if baseDomain \<noteq> [] \<and> last baseDomain = CHR ''/''
                                then butlast baseDomain else baseDomain) \<rparr>)"

text \<open>
  The branch of \<open>shorten\<close> that chooses the code: the custom alias when one is given,
  the hash of the URL otherwise, with the collision ladder when that code is taken.
\<close>

definition choose_code ::
  "URLShortener \<Rightarrow> string \<Rightarrow> ShortenOptions \<Rightarrow> environment \<Rightarrow> us_error + (string \<times> bool)" where
  "choose_code s url opts env =
     (case truthy (customAlias opts) of
        Some alias \<Rightarrow>
          (case normalizeCustomAlias alias of
             Inl e \<Rightarrow> Inl e
           | Inr code \<Rightarrow>
               if codeToIdMap s code \<noteq> None then Inl ALIAS_COLLISION
               else Inr (code, False))
      | None \<Rightarrow>
          (let code = generateUniqueShortCode url
           in if codeToIdMap s code \<noteq> None
              then (case resolveCollision s code url env of
                      Inl e \<Rightarrow> Inl e
                    | Inr resolved \<Rightarrow> Inr (resolved, True))
              else Inr (code, False)))"

definition shorten ::
  "(string \<Rightarrow> (string \<times> string) option) \<Rightarrow> URLShortener \<Rightarrow> string \<Rightarrow> ShortenOptions
     \<Rightarrow> environment \<Rightarrow> us_error + (ShortenResult \<times> URLShortener)" where
  "shorten parseUrl s url opts env =
     (case validateUrl parseUrl url of
        Some e \<Rightarrow> Inl e
      | None \<Rightarrow>
          (case truthy (originalUrlToCodeMap s url) of
             Some existingCode \<Rightarrow>
               Inr (\<lparr> sr_success = True, sr_shortCode = existingCode,
                       sr_shortUrl = BASE_DOMAIN s @ ''/'' @ existingCode,
                       sr_originalUrl = url,
                       sr_message = Some ''URL already shortened'',
                       sr_collisionResolved = None \<rparr>, s)
           | None \<Rightarrow>
               (case choose_code s url opts env of
                  Inl e \<Rightarrow> Inl e
                | Inr (code, collisionResolved) \<Rightarrow>
                    (let ident = generateId env;
                         shortenedUrl = \<lparr> id_url = ident, originalUrl = url, shortCode = code,
                                          createdAt_url = createdNow env, clickCount = 0 \<rparr>
                     in Inr (\<lparr> sr_success = True, sr_shortCode = code,
                               sr_shortUrl = BASE_DOMAIN s @ ''/'' @ code,
                               sr_originalUrl = url,
                               sr_message = None,
                               sr_collisionResolved = Some collisionResolved \<rparr>,
                             s\<lparr> urlMap := (urlMap s)(ident \<mapsto> shortenedUrl),
                                codeToIdMap := (codeToIdMap s)(code \<mapsto> ident),
                                originalUrlToCodeMap := (originalUrlToCodeMap s)(url \<mapsto> code) \<rparr>)))))"

text \<open>The \<open>try\<close> block of \<open>expand\<close>, and \<open>expand\<close> with its \<open>catch\<close>.\<close>

definition expand_try :: "URLShortener \<Rightarrow> string \<Rightarrow> us_error + (string \<times> URLShortener)" where
  "expand_try s code =
     (case validateShortCode code of
        Some e \<Rightarrow> Inl e
      | None \<Rightarrow>
          (case truthy (codeToIdMap s code) of
             None \<Rightarrow> Inl NOT_FOUND
           | Some ident \<Rightarrow>
               (case urlMap s ident of
                  None \<Rightarrow> Inl DATA_CORRUPTED
                | Some shortenedUrl \<Rightarrow>
                    Inr (originalUrl shortenedUrl,
                         s\<lparr> urlMap := (urlMap s)
                               (ident \<mapsto> shortenedUrl\<lparr> clickCount := clickCount shortenedUrl + 1 \<rparr>) \<rparr>))))"

definition expand :: "URLShortener \<Rightarrow> string \<Rightarrow> ExpandResult \<times> URLShortener" where
  "expand s code =
     (case expand_try s code of
        Inr (url, s') \<Rightarrow>
          (\<lparr> er_success = True, er_originalUrl = Some url, er_message = None \<rparr>, s')
      | Inl e \<Rightarrow>
          (\<lparr> er_success = False, er_originalUrl = None, er_message = Some (error_message e) \<rparr>, s))"

definition getStats :: "URLShortener \<Rightarrow> string \<Rightarrow> ShortenedUrl option" where
  "getStats s code =
     (case truthy (codeToIdMap s code) of
        None \<Rightarrow> None
      | Some ident \<Rightarrow> urlMap s ident)"

definition deleteUrl :: "URLShortener \<Rightarrow> string \<Rightarrow> bool \<times> URLShortener" where
  "deleteUrl s code =
     (case truthy (codeToIdMap s code) of
        None \<Rightarrow> (False, s)
      | Some ident \<Rightarrow>
          (case urlMap s ident of
             None \<Rightarrow> (False, s)
           | Some url \<Rightarrow>
               (True, s\<lparr> urlMap := (urlMap s)(ident := None),
                         codeToIdMap := (codeToIdMap s)(code := None),
                         originalUrlToCodeMap := (originalUrlToCodeMap s)(originalUrl url := None) \<rparr>)))"

text \<open>
  The consistency of the three indices: every record is indexed under its own id, its
  code and its URL, every index entry leads to a record, and no stored code or id is
  the empty string.
\<close>

definition store_inv :: "URLShortener \<Rightarrow> bool" where
  "store_inv s =
     ((\<forall>i r. urlMap s i = Some r \<longrightarrow>
          id_url r = i \<and> i \<noteq> [] \<and> shortCode r \<noteq> [] \<and>
          codeToIdMap s (shortCode r) = Some i \<and>
          originalUrlToCodeMap s (originalUrl r) = Some (shortCode r)) \<and>
      (\<forall>c i. codeToIdMap s c = Some i \<longrightarrow> (\<exists>r. urlMap s i = Some r \<and> shortCode r = c)) \<and>
      (\<forall>u c. originalUrlToCodeMap s u = Some c \<longrightarrow>
          (\<exists>i r. codeToIdMap s c = Some i \<and> urlMap s i = Some r \<and> originalUrl r = u)))"

subsection \<open>A small store for the examples\<close>

text \<open>
  The examples below run on \<open>http://\<close> URLs. For them the platform parser returns
  the protocol \<open>http:\<close> and the text up to the first slash as the host name.
\<close>

definition example_parseUrl :: "string \<Rightarrow> (string \<times> string) option" where
  "example_parseUrl url =
     (if take 7 url = ''http://'' \<and> 7 < length url
      then Some (''http:'', takeWhile (\<lambda>c. c \<noteq> CHR ''/'') (drop 7 url))
      else None)"

definition example_env :: environment where
  "example_env =
     \<lparr> loopNow = (\<lambda>k. 1700000000000), loopRandom = (\<lambda>k. ''0.k3x9q2m7''),
       idNow = 1700000000000, idRandom = ''0.4fzyo82mvyr'', createdNow = 1700000000000 \<rparr>"

definition example_env2 :: environment where
  "example_env2 =
     \<lparr> loopNow = (\<lambda>k. 1700000005000), loopRandom = (\<lambda>k. ''0.7c1d0zq4''),
       idNow = 1700000005000, idRandom = ''0.b81x2kd9w3'', createdNow = 1700000005000 \<rparr>"

definition no_options :: ShortenOptions where
  "no_options = \<lparr> customAlias = None, expireAfterDays = None \<rparr>"

definition example_store :: URLShortener where
  "example_store =
     \<lparr> urlMap = Map.empty, codeToIdMap = Map.empty, originalUrlToCodeMap = Map.empty,
       BASE_DOMAIN = ''https://short.url'' \<rparr>"

text \<open>The store after \<open>shorten('http://a.b')\<close> on the empty store.\<close>

definition example_store1 :: URLShortener where
  "example_store1 =
     \<lparr> urlMap = [''1700000000000-4fzyo82'' \<mapsto>
                   \<lparr> id_url = ''1700000000000-4fzyo82'', originalUrl = ''http://a.b'',
                     shortCode = ''AVLz10'', createdAt_url = 1700000000000, clickCount = 0 \<rparr>],
       codeToIdMap = [''AVLz10'' \<mapsto> ''1700000000000-4fzyo82''],
       originalUrlToCodeMap = [''http://a.b'' \<mapsto> ''AVLz10''],
       BASE_DOMAIN = ''https://short.url'' \<rparr>"

text \<open>The store after \<open>shorten('http://a.b')\<close> on the empty store in the second environment.\<close>

definition example_store2 :: URLShortener where
  "example_store2 =
     \<lparr> urlMap = [''1700000005000-b81x2kd'' \<mapsto>
                   \<lparr> id_url = ''1700000005000-b81x2kd'', originalUrl = ''http://a.b'',
                     shortCode = ''AVLz10'', createdAt_url = 1700000005000, clickCount = 0 \<rparr>],
       codeToIdMap = [''AVLz10'' \<mapsto> ''1700000005000-b81x2kd''],
       originalUrlToCodeMap = [''http://a.b'' \<mapsto> ''AVLz10''],
       BASE_DOMAIN = ''https://short.url'' \<rparr>"

text \<open>
  A code index in which the hash code of \<open>http://a.b\<close> and every candidate of the five
  rounds in the first environment are assigned.
\<close>

definition example_full_store :: URLShortener where
  "example_full_store =
     \<lparr> urlMap = Map.empty,
       codeToIdMap = map_of
         [(''AVLz10'', ''i0''), (''AVLz28'', ''i1''), (''AVLzk3'', ''i2''), (''Z0kKE'', ''i3''),
          (''Z0kKF'', ''i4''), (''Z0kKG'', ''i5''), (''Z0kKH'', ''i6''), (''Z0kKI'', ''i7'')],
       originalUrlToCodeMap = Map.empty,
       BASE_DOMAIN = ''https://short.url'' \<rparr>"

section \<open>Properties of the rate limiters\<close>

subsection \<open>The token count stays within the capacity\<close>

lemma refillBucket_in_range:
  "bucket_in_range b \<Longrightarrow> bucket_in_range (refillBucket b now)"
  by (auto simp: bucket_in_range_def refillBucket_def Let_def)

lemma registry_in_range_upd:
  "registry_in_range bs \<Longrightarrow> bucket_in_range b \<Longrightarrow> registry_in_range (bs(key \<mapsto> b))"
  by (simp add: registry_in_range_def)

lemma registry_in_rangeD:
  "registry_in_range bs \<Longrightarrow> bs key = Some b \<Longrightarrow> bucket_in_range b"
  by (simp add: registry_in_range_def)

lemma or_default_in_range:
  "validateConfig c = None \<Longrightarrow>
     0 \<le> or_default (initialTokens c) (capacity c) \<and>
     or_default (initialTokens c) (capacity c) \<le> capacity c"
  by (auto simp: validateConfig_def or_default_def split: if_splits option.splits)

lemma createBucket_in_range:
  assumes "registry_in_range bs" and "createBucket bs key c now = Inr (b, bs')"
  shows "bucket_in_range b \<and> registry_in_range bs'"
proof -
  from assms(2) have v: "validateConfig c = None"
    and b: "b = \<lparr> tokens = or_default (initialTokens c) (capacity c),
                   consumed = 0, blocked = 0, lastRefill = now, createdAt = now, config = c \<rparr>"
    and bs': "bs' = bs(key \<mapsto> b)"
    by (auto simp: createBucket_def Let_def split: option.splits)
  have "bucket_in_range b"
    using or_default_in_range[OF v] by (simp add: b bucket_in_range_def)
  then show ?thesis
    using assms(1) by (simp add: bs' registry_in_range_upd)
qed

lemma consume_in_range:
  assumes "0 < n" and "bucket_in_range b1"
  shows "bucket_in_range (if tokens b1 \<ge> n
           then b1\<lparr> tokens := tokens b1 - n, consumed := consumed b1 + n \<rparr>
           else b1\<lparr> blocked := blocked b1 + 1 \<rparr>)"
  using assms by (auto simp: bucket_in_range_def)

lemma check_in_range:
  assumes "registry_in_range bs" and "check bs key n cfg now nowCreate = Inr (r, bs')"
  shows "registry_in_range bs'"
proof -
  from assms(2) have n: "0 < n"
    by (auto simp: check_def validateInput_def split: option.splits if_splits)
  from assms(2) obtain bucket bs1 where
    src: "(case bs key of Some b \<Rightarrow> Inr (b, bs) | None \<Rightarrow> (case cfg of Some c \<Rightarrow> createBucket bs key c nowCreate | None \<Rightarrow> Inl BucketMissingNoConfig)) = Inr (bucket, bs1)"
    and bs': "bs' = bs1(key \<mapsto> (let b1 = refillBucket bucket now in
              if tokens b1 \<ge> n then b1\<lparr> tokens := tokens b1 - n, consumed := consumed b1 + n \<rparr>
              else b1\<lparr> blocked := blocked b1 + 1 \<rparr>))"
    by (auto simp: check_def Let_def split: option.splits sum.splits)
  have "bucket_in_range bucket \<and> registry_in_range bs1"
  proof (cases "bs key")
    case None
    with src obtain c where "createBucket bs key c nowCreate = Inr (bucket, bs1)"
      by (auto split: option.splits)
    then show ?thesis using createBucket_in_range assms(1) by blast
  next
    case (Some b)
    with src have "bucket = b" "bs1 = bs" by simp_all
    then show ?thesis using assms(1) Some registry_in_rangeD by blast
  qed
  then have b: "bucket_in_range (refillBucket bucket now)" and r: "registry_in_range bs1"
    by (simp_all add: refillBucket_in_range)
  show ?thesis
    unfolding bs' Let_def
    by (rule registry_in_range_upd[OF r consume_in_range[OF n b]])
qed

lemma addTokens_in_range:
  assumes "registry_in_range bs" and "addTokens bs key n = Inr (r, bs')"
  shows "registry_in_range bs'"
proof -
  from assms(2) obtain b where b: "bs key = Some b" and n: "0 < n"
    and bs': "bs' = bs(key \<mapsto> b\<lparr> tokens := min (tokens b + n) (capacity (config b)) \<rparr>)"
    by (auto simp: addTokens_def Let_def split: if_splits option.splits)
  have "bucket_in_range b" using assms(1) b by (rule registry_in_rangeD)
  then have "bucket_in_range (b\<lparr> tokens := min (tokens b + n) (capacity (config b)) \<rparr>)"
    using n by (auto simp: bucket_in_range_def)
  then show ?thesis unfolding bs' using assms(1) by (simp add: registry_in_range_upd)
qed

lemma registry_step_in_range:
  "registry_in_range bs \<Longrightarrow> registry_in_range (registry_step bs x)"
proof (cases x)
  case (Check key n cfg now nowCreate)
  assume "registry_in_range bs"
  then show ?thesis using Check check_in_range
    by (auto split: sum.splits)
next
  case (AddTokens key n)
  assume "registry_in_range bs"
  then show ?thesis using AddTokens addTokens_in_range
    by (auto split: sum.splits)
qed

lemma registry_trace_in_range:
  "registry_in_range bs \<Longrightarrow> bs' \<in> set (registry_trace bs xs) \<Longrightarrow> registry_in_range bs'"
proof (induction xs arbitrary: bs)
  case Nil
  then show ?case by simp
next
  case (Cons x xs)
  then show ?case using registry_step_in_range by auto
qed

lemma refill_in_range: "tb_in_range b \<Longrightarrow> 0 \<le> tb_refillRate b \<Longrightarrow> tb_in_range (refill b now)"
  by (auto simp: tb_in_range_def refill_def Let_def)

lemma tb_step_inv:
  assumes "tb_in_range b" "0 < tb_refillRate b"
  shows "tb_in_range (bucket_step b x) \<and> 0 < tb_refillRate (bucket_step b x)"
proof (cases x)
  case (TryConsume n now)
  have r: "tb_in_range (refill b now)" "tb_refillRate (refill b now) = tb_refillRate b"
    using assms by (auto simp: refill_in_range) (simp add: refill_def Let_def)
  show ?thesis
    using r assms TryConsume
    by (auto simp: tryConsume_def Let_def tb_in_range_def split: if_splits)
next
  case (AddTokens_tb n)
  then show ?thesis using assms
    by (auto simp: addTokens_tb_def Let_def tb_in_range_def)
qed

lemma bucket_trace_inv:
  "tb_in_range b \<Longrightarrow> 0 < tb_refillRate b \<Longrightarrow> b' \<in> set (bucket_trace b xs)
     \<Longrightarrow> tb_in_range b' \<and> 0 < tb_refillRate b'"
proof (induction xs arbitrary: b)
  case Nil
  then show ?case by simp
next
  case (Cons x xs)
  then show ?case using tb_step_inv[of b x] by auto
qed

lemma new_TokenBucket_inv:
  "new_TokenBucket c nowV nowI = Inr b \<Longrightarrow> tb_in_range b \<and> 0 < tb_refillRate b"
  by (auto simp: new_TokenBucket_def validateConfig_tb_def tb_in_range_def nullish_default_def
           split: option.splits if_splits)

text \<open>
  Claim C1 (capacity invariant). From a registry whose buckets are in range (the empty
  registry in particular) and from a bucket that the constructor accepted, every
  sequence of \<open>check\<close>/\<open>tryConsume\<close> and \<open>addTokens\<close> calls, with any arguments
  and any clock readings, keeps \<open>0 \<le> tokens \<le> capacity\<close> after every operation;
  the state after the lazy refill alone is in range as well.
\<close>

theorem capacity_invariant:
  assumes "registry_in_range bs" and "new_TokenBucket c nowV nowI = Inr b0"
  shows "(\<forall>bs' \<in> set (registry_trace bs rops).
            registry_in_range bs' \<and>
            (\<forall>k b now. bs' k = Some b \<longrightarrow> bucket_in_range (refillBucket b now))) \<and>
         (\<forall>b \<in> set (bucket_trace b0 bops).
            tb_in_range b \<and> (\<forall>now. tb_in_range (refill b now)))"
proof (intro conjI ballI allI impI)
  fix bs' assume "bs' \<in> set (registry_trace bs rops)"
  then show r: "registry_in_range bs'"
    using assms(1) registry_trace_in_range by blast
  fix k b now assume "bs' k = Some b"
  then show "bucket_in_range (refillBucket b now)"
    using r registry_in_rangeD refillBucket_in_range by blast
next
  fix b assume "b \<in> set (bucket_trace b0 bops)"
  then have i: "tb_in_range b \<and> 0 < tb_refillRate b"
    using new_TokenBucket_inv[OF assms(2)] bucket_trace_inv by blast
  then show "tb_in_range b" by simp
  fix now show "tb_in_range (refill b now)"
    using i by (simp add: refill_in_range)
qed

theorem capacity_invariant_witness:
  "registry_in_range Map.empty \<and>
   new_TokenBucket \<lparr> cfg_capacity = 10, cfg_refillRate = 2, cfg_initialTokens = Some 0,
                     cfg_lastRefillTime = None \<rparr> 0 0
     = Inr \<lparr> tb_tokens = 0, tb_lastRefillTime = 0, tb_capacity = 10, tb_refillRate = 2 \<rparr> \<and>
   list_all registry_in_range
     (registry_trace Map.empty
        [Check ''u'' 4 (Some \<lparr> capacity = 10, refillRate = 2, initialTokens = None \<rparr>) 0 0,
         AddTokens ''u'' 9]) \<and>
   list_all tb_in_range
     (bucket_trace \<lparr> tb_tokens = 0, tb_lastRefillTime = 0, tb_capacity = 10, tb_refillRate = 2 \<rparr>
        [AddTokens_tb 7, TryConsume 3 500])"
proof -
  have h1: "registry_in_range Map.empty"
    by (simp add: registry_in_range_def)
  have h2: "new_TokenBucket \<lparr> cfg_capacity = 10, cfg_refillRate = 2, cfg_initialTokens = Some 0,
                     cfg_lastRefillTime = None \<rparr> 0 0
     = Inr \<lparr> tb_tokens = 0, tb_lastRefillTime = 0, tb_capacity = 10, tb_refillRate = 2 \<rparr>"
    by (simp add: new_TokenBucket_def validateConfig_tb_def nullish_default_def)
  show ?thesis
    unfolding list_all_iff
    using h1 h2 capacity_invariant[OF h1 h2] by blast
qed

subsection \<open>A configured initial count of zero\<close>

text \<open>
  Claim C10. In the registry a configuration with \<open>initialTokens = 0\<close> (and a positive
  capacity and refill rate) passes \<open>validateConfig\<close>, yet \<open>createBucket\<close> and
  \<open>resetBucket\<close> both read the zero as absent (\<open>initialTokens || capacity\<close>) and
  start the bucket full, with \<open>tokens = capacity\<close>, which is not \<open>0\<close>.
\<close>

theorem zero_initial_tokens_starts_full:
  assumes "0 < capacity c" and "0 < refillRate c" and "initialTokens c = Some 0"
  shows "validateConfig c = None \<and>
         createBucket bs key c now =
           Inr (\<lparr> tokens = capacity c, consumed = 0, blocked = 0, lastRefill = now,
                   createdAt = now, config = c \<rparr>,
                bs(key \<mapsto> \<lparr> tokens = capacity c, consumed = 0, blocked = 0, lastRefill = now,
                               createdAt = now, config = c \<rparr>)) \<and>
         capacity c \<noteq> 0 \<and>
         (\<forall>b. bs key = Some b \<and> config b = c \<longrightarrow>
            resetBucket bs key now =
              Inr (bs(key \<mapsto> b\<lparr> tokens := capacity c, consumed := 0, blocked := 0,
                                 lastRefill := now \<rparr>)))"
proof -
  have v: "validateConfig c = None"
    using assms by (simp add: validateConfig_def)
  have d: "or_default (initialTokens c) (capacity c) = capacity c"
    using assms(3) by (simp add: or_default_def)
  show ?thesis
    using v d assms(1) by (auto simp: createBucket_def resetBucket_def Let_def)
qed

theorem zero_initial_tokens_starts_full_witness:
  "validateConfig \<lparr> capacity = 10, refillRate = 2, initialTokens = Some 0 \<rparr> = None \<and>
   createBucket Map.empty ''k'' \<lparr> capacity = 10, refillRate = 2, initialTokens = Some 0 \<rparr> 5 =
     Inr (\<lparr> tokens = 10, consumed = 0, blocked = 0, lastRefill = 5, createdAt = 5,
             config = \<lparr> capacity = 10, refillRate = 2, initialTokens = Some 0 \<rparr> \<rparr>,
          [''k'' \<mapsto> \<lparr> tokens = 10, consumed = 0, blocked = 0, lastRefill = 5, createdAt = 5,
             config = \<lparr> capacity = 10, refillRate = 2, initialTokens = Some 0 \<rparr> \<rparr>])"
  using zero_initial_tokens_starts_full
          [of "\<lparr> capacity = 10, refillRate = 2, initialTokens = Some 0 \<rparr>" Map.empty "''k''" 5]
  by simp

subsection \<open>A clock that runs backwards\<close>

lemma refill_regression: "now < tb_lastRefillTime b \<Longrightarrow> refill b now = b"
  by (simp add: refill_def Let_def)

lemma refillBucket_regression:
  "0 < refillRate (config b) \<Longrightarrow> now < lastRefill b \<Longrightarrow> refillBucket b now = b"
  by (simp add: refillBucket_def Let_def zero_less_mult_iff)

text \<open>
  Claim C4 (no free admission on clock regression). When the clock reading of a consume
  call is earlier than the bucket's last refill time, the refill step returns the bucket
  as it was: no token is added and none is taken away, so the decision is made on the
  stored token count. It holds for \<open>TokenBucket.refill\<close> and, for a bucket whose
  configuration passed validation, for \<open>TokenBucketRateLimiter.refillBucket\<close>.
\<close>

theorem no_refill_on_clock_regression:
  "(now < tb_lastRefillTime b \<longrightarrow>
      refill b now = b \<and>
      (\<forall>r b'. tryConsume b n now = Inr (r, b') \<longrightarrow>
         res_allowed r = (n \<le> tb_tokens b) \<and>
         tb_lastRefillTime b' = tb_lastRefillTime b)) \<and>
   (validateConfig (config bk) = None \<and> t < lastRefill bk \<longrightarrow>
      refillBucket bk t = bk \<and>
      (\<forall>r bs'. bs key = Some bk \<and> check bs key m cfg t tc = Inr (r, bs') \<longrightarrow>
         allowed r = (m \<le> tokens bk)))"
proof (intro conjI impI allI)
  assume a: "now < tb_lastRefillTime b"
  then show r: "refill b now = b" by (rule refill_regression)
  fix res b' assume "tryConsume b n now = Inr (res, b')"
  then show "res_allowed res = (n \<le> tb_tokens b)" "tb_lastRefillTime b' = tb_lastRefillTime b"
    using r by (auto simp: tryConsume_def Let_def split: if_splits)
next
  assume a: "validateConfig (config bk) = None \<and> t < lastRefill bk"
  then have "0 < refillRate (config bk)"
    by (auto simp: validateConfig_def split: if_splits)
  then show r: "refillBucket bk t = bk"
    using a by (simp add: refillBucket_regression)
  fix res bs' assume "bs key = Some bk \<and> check bs key m cfg t tc = Inr (res, bs')"
  then show "allowed res = (m \<le> tokens bk)"
    using r by (auto simp: check_def Let_def split: option.splits if_splits)
qed

theorem no_refill_on_clock_regression_witness:
  "(4::real) < tb_lastRefillTime \<lparr> tb_tokens = 3, tb_lastRefillTime = 9, tb_capacity = 10, tb_refillRate = 2 \<rparr> \<and>
   refill \<lparr> tb_tokens = 3, tb_lastRefillTime = 9, tb_capacity = 10, tb_refillRate = 2 \<rparr> 4
     = \<lparr> tb_tokens = 3, tb_lastRefillTime = 9, tb_capacity = 10, tb_refillRate = 2 \<rparr> \<and>
   validateConfig \<lparr> capacity = 10, refillRate = 2, initialTokens = None \<rparr> = None \<and>
   refillBucket \<lparr> tokens = 3, consumed = 0, blocked = 0, lastRefill = 9, createdAt = 0,
                  config = \<lparr> capacity = 10, refillRate = 2, initialTokens = None \<rparr> \<rparr> 4
     = \<lparr> tokens = 3, consumed = 0, blocked = 0, lastRefill = 9, createdAt = 0,
                  config = \<lparr> capacity = 10, refillRate = 2, initialTokens = None \<rparr> \<rparr>"
  using no_refill_on_clock_regression
          [of 4 "\<lparr> tb_tokens = 3, tb_lastRefillTime = 9, tb_capacity = 10, tb_refillRate = 2 \<rparr>" 1
              "\<lparr> tokens = 3, consumed = 0, blocked = 0, lastRefill = 9, createdAt = 0,
                  config = \<lparr> capacity = 10, refillRate = 2, initialTokens = None \<rparr> \<rparr>" 4
              Map.empty "''k''" 1 None 4]
  by (simp add: validateConfig_def)

subsection \<open>The decision of a consume call\<close>

lemma ceiling_half: "\<lceil>(1::real) / 2\<rceil> = 1"
  by (rule ceiling_unique) simp_all

lemma check_decision:
  assumes "bs key = Some b" and "validateInput key n cfg = None"
  shows "\<exists>r bs'. check bs key n cfg now nowCreate = Inr (r, bs') \<and>
           (if n \<le> tokens (refillBucket b now)
            then allowed r \<and> remainingTokens r = tokens (refillBucket b now) - n \<and>
                 retryAfter r = None
            else \<not> allowed r \<and> remainingTokens r = tokens (refillBucket b now) \<and>
                 retryAfter r = Some \<lceil>(n - tokens (refillBucket b now)) / refillRate (config b)\<rceil>)"
proof -
  have c: "config (refillBucket b now) = config b"
    by (simp add: refillBucket_def Let_def)
  show ?thesis
    using assms c by (simp add: check_def Let_def calculateRetryAfter_def)
qed

lemma tryConsume_decision:
  assumes "0 < n" and "n \<le> tb_capacity b"
  shows "\<exists>r b'. tryConsume b n now = Inr (r, b') \<and>
           (if n \<le> tb_tokens (refill b now)
            then res_allowed r \<and> res_remainingTokens r = tb_tokens (refill b now) - n \<and>
                 res_retryAfter r = None
            else \<not> res_allowed r \<and> res_remainingTokens r = tb_tokens (refill b now) \<and>
                 res_retryAfter r = Some \<lceil>(n - tb_tokens (refill b now)) / tb_refillRate b\<rceil>)"
proof -
  have c: "tb_refillRate (refill b now) = tb_refillRate b"
    by (simp add: refill_def Let_def)
  show ?thesis
    using assms c by (simp add: tryConsume_def Let_def)
qed

lemma scenario_10_2:
  assumes "new_TokenBucket \<lparr> cfg_capacity = 10, cfg_refillRate = 2, cfg_initialTokens = None,
                             cfg_lastRefillTime = None \<rparr> nowV nowI = Inr b0"
  shows "\<exists>r1 b1 r2 b2.
           tryConsume b0 10 t = Inr (r1, b1) \<and> res_allowed r1 \<and> res_remainingTokens r1 = 0 \<and>
           tryConsume b1 1 t = Inr (r2, b2) \<and> \<not> res_allowed r2 \<and> res_retryAfter r2 = Some 1"
proof -
  from assms have b0: "b0 = \<lparr> tb_tokens = 10, tb_lastRefillTime = nowI, tb_capacity = 10,
                              tb_refillRate = 2 \<rparr>"
    by (auto simp: new_TokenBucket_def validateConfig_tb_def nullish_default_def)
  show ?thesis
  proof (cases "t - nowI \<le> 0")
    case True
    then show ?thesis
      by (simp add: b0 tryConsume_def refill_def Let_def ceiling_half)
  next
    case False
    then show ?thesis
      by (simp add: b0 tryConsume_def refill_def Let_def ceiling_half)
  qed
qed

lemma registry_scenario_10_2:
  assumes "validateInput key 1 None = None" and "bs key = None"
  shows "\<exists>r1 bs1 r2 bs2.
           check bs key 10 (Some \<lparr> capacity = 10, refillRate = 2, initialTokens = None \<rparr>)
             t tCreate = Inr (r1, bs1) \<and>
           allowed r1 \<and> remainingTokens r1 = 0 \<and>
           check bs1 key 1 None t tCreate2 = Inr (r2, bs2) \<and>
           \<not> allowed r2 \<and> retryAfter r2 = Some 1"
proof -
  have k: "key \<noteq> [] \<and> \<not> trim_is_empty key"
    using assms(1) by (auto simp: validateInput_def split: if_splits)
  show ?thesis
  proof (cases "0 < (t - tCreate) / 1000 * 2")
    case True
    then show ?thesis
      using k assms(2)
      by (simp add: check_def validateInput_def validateConfig_def createBucket_def
            or_default_def refillBucket_def calculateRetryAfter_def Let_def ceiling_half)
  next
    case False
    then show ?thesis
      using k assms(2)
      by (simp add: check_def validateInput_def validateConfig_def createBucket_def
            or_default_def refillBucket_def calculateRetryAfter_def Let_def ceiling_half)
  qed
qed

text \<open>
  Claim C3. Let \<open>newTokens\<close> be the token count after the lazy refill. A call with a
  valid amount is allowed with \<open>remainingTokens = newTokens - requested\<close> when
  \<open>newTokens \<ge> requested\<close>; otherwise it is denied with
  \<open>remainingTokens = newTokens\<close> and
  \<open>retryAfter = \<lceil>(requested - newTokens) / refillRate\<rceil>\<close>. It holds for \<open>check\<close>
  on an existing bucket and for \<open>tryConsume\<close>. A bucket constructed with capacity 10
  and refill rate 2 allows a consume of 10 with 0 remaining, and a consume of 1 at the
  same clock reading is then denied with \<open>retryAfter = 1\<close>; so does a bucket that
  \<open>check\<close> creates with that configuration.
\<close>

theorem consume_decision:
  "(bs key = Some b \<and> validateInput key n cfg = None \<longrightarrow>
     (\<exists>r bs'. check bs key n cfg now nowCreate = Inr (r, bs') \<and>
        (if n \<le> tokens (refillBucket b now)
         then allowed r \<and> remainingTokens r = tokens (refillBucket b now) - n \<and>
              retryAfter r = None
         else \<not> allowed r \<and> remainingTokens r = tokens (refillBucket b now) \<and>
              retryAfter r = Some \<lceil>(n - tokens (refillBucket b now)) / refillRate (config b)\<rceil>))) \<and>
   (0 < m \<and> m \<le> tb_capacity tb \<longrightarrow>
     (\<exists>r tb'. tryConsume tb m now = Inr (r, tb') \<and>
        (if m \<le> tb_tokens (refill tb now)
         then res_allowed r \<and> res_remainingTokens r = tb_tokens (refill tb now) - m \<and>
              res_retryAfter r = None
         else \<not> res_allowed r \<and> res_remainingTokens r = tb_tokens (refill tb now) \<and>
              res_retryAfter r = Some \<lceil>(m - tb_tokens (refill tb now)) / tb_refillRate tb\<rceil>))) \<and>
   (new_TokenBucket \<lparr> cfg_capacity = 10, cfg_refillRate = 2, cfg_initialTokens = None,
                      cfg_lastRefillTime = None \<rparr> nowV nowI = Inr b0 \<longrightarrow>
     (\<exists>r1 b1 r2 b2.
        tryConsume b0 10 t = Inr (r1, b1) \<and> res_allowed r1 \<and> res_remainingTokens r1 = 0 \<and>
        tryConsume b1 1 t = Inr (r2, b2) \<and> \<not> res_allowed r2 \<and> res_retryAfter r2 = Some 1)) \<and>
   (validateInput k 1 None = None \<and> reg k = None \<longrightarrow>
     (\<exists>r1 reg1 r2 reg2.
        check reg k 10 (Some \<lparr> capacity = 10, refillRate = 2, initialTokens = None \<rparr>)
          t tCreate = Inr (r1, reg1) \<and>
        allowed r1 \<and> remainingTokens r1 = 0 \<and>
        check reg1 k 1 None t tCreate2 = Inr (r2, reg2) \<and>
        \<not> allowed r2 \<and> retryAfter r2 = Some 1))"
  using check_decision[of bs key b n cfg now nowCreate] tryConsume_decision[of m tb now]
        scenario_10_2[of nowV nowI b0 t] registry_scenario_10_2[of k reg t tCreate tCreate2]
  by blast

theorem consume_decision_witness:
  "(\<exists>r bs'. check [''u'' \<mapsto> \<lparr> tokens = 3, consumed = 0, blocked = 0, lastRefill = 0, createdAt = 0,
                  config = \<lparr> capacity = 10, refillRate = 2, initialTokens = None \<rparr> \<rparr>]
              ''u'' 6 None 1000 0 = Inr (r, bs') \<and>
       \<not> allowed r \<and> remainingTokens r = 5 \<and> retryAfter r = Some 1) \<and>
   (\<exists>r tb'. tryConsume \<lparr> tb_tokens = 3, tb_lastRefillTime = 0, tb_capacity = 10, tb_refillRate = 2 \<rparr>
              4 1000 = Inr (r, tb') \<and>
       res_allowed r \<and> res_remainingTokens r = 1 \<and> res_retryAfter r = None) \<and>
   (\<exists>r1 b1 r2 b2.
        tryConsume \<lparr> tb_tokens = 10, tb_lastRefillTime = 7, tb_capacity = 10, tb_refillRate = 2 \<rparr> 10 7
           = Inr (r1, b1) \<and> res_allowed r1 \<and> res_remainingTokens r1 = 0 \<and>
        tryConsume b1 1 7 = Inr (r2, b2) \<and> \<not> res_allowed r2 \<and> res_retryAfter r2 = Some 1)"
proof -
  let ?bk = "\<lparr> tokens = 3, consumed = 0, blocked = 0, lastRefill = 0, createdAt = 0,
                  config = \<lparr> capacity = 10, refillRate = 2, initialTokens = None \<rparr> \<rparr>"
  let ?tb = "\<lparr> tb_tokens = 3, tb_lastRefillTime = 0, tb_capacity = 10, tb_refillRate = 2 \<rparr>"
  let ?b0 = "\<lparr> tb_tokens = 10, tb_lastRefillTime = 7, tb_capacity = 10, tb_refillRate = 2 \<rparr>"
  have h1: "[''u'' \<mapsto> ?bk] ''u'' = Some ?bk \<and> validateInput ''u'' 6 None = None"
    by (simp add: validateInput_def trim_is_empty_def is_js_space_def)
  have h2: "(0::real) < 4 \<and> 4 \<le> tb_capacity ?tb" by simp
  have h3: "new_TokenBucket \<lparr> cfg_capacity = 10, cfg_refillRate = 2, cfg_initialTokens = None,
                      cfg_lastRefillTime = None \<rparr> 7 7 = Inr ?b0"
    by (simp add: new_TokenBucket_def validateConfig_tb_def nullish_default_def)
  have r1: "tokens (refillBucket ?bk 1000) = 5"
    by (simp add: refillBucket_def Let_def)
  have r2: "tb_tokens (refill ?tb 1000) = 5"
    by (simp add: refill_def Let_def)
  from consume_decision[of "[''u'' \<mapsto> ?bk]" "''u''" ?bk 6 None 1000 0 4 ?tb 7 7 ?b0 7]
  show ?thesis
    using h1 h2 h3 r1 r2 by (simp add: ceiling_half)
qed

subsection \<open>Requests above the capacity, and non-positive requests\<close>

text \<open>
  The registry's \<open>validateInput\<close> compares the requested amount with \<open>0\<close> only.
  A request of 20 tokens on a bucket of capacity 10 is therefore answered with an
  ordinary denial that carries a \<open>retryAfter\<close> hint, and is counted as blocked.
\<close>

theorem check_over_capacity_counterexample:
  "check Map.empty ''k'' 20 (Some \<lparr> capacity = 10, refillRate = 2, initialTokens = None \<rparr>) 0 0 =
     Inr (\<lparr> allowed = False, remainingTokens = 10, retryAfter = Some 5, bucketKey = ''k'' \<rparr>,
          [''k'' \<mapsto> \<lparr> tokens = 10, consumed = 0, blocked = 1, lastRefill = 0, createdAt = 0,
                       config = \<lparr> capacity = 10, refillRate = 2, initialTokens = None \<rparr> \<rparr>])"
  by (simp add: check_def validateInput_def validateConfig_def trim_is_empty_def is_js_space_def
        createBucket_def or_default_def refillBucket_def calculateRetryAfter_def Let_def)

text \<open>
  Claim C5, as the code has it. \<open>TokenBucket.tryConsume\<close> throws a distinct error for
  a request above the capacity and an input error for a request \<open>\<le> 0\<close>; a throw
  returns no new state, so the bucket is as before. \<open>TokenBucketRateLimiter.check\<close>
  throws an input error for a request \<open>\<le> 0\<close> before any write, but a request above
  the capacity of an existing in-range bucket is denied like any other, with
  \<open>retryAfter = \<lceil>(requested - tokens) / refillRate\<rceil>\<close> and the blocked counter
  incremented.
\<close>

theorem request_validation:
  "(tb_capacity tb < n \<and> 0 < n \<longrightarrow> tryConsume tb n now = Inl ExceedsCapacity) \<and>
   (n \<le> 0 \<longrightarrow> tryConsume tb n now = Inl TokensToConsumeNotPositive) \<and>
   (n \<le> 0 \<longrightarrow> (\<exists>e. check bs key n cfg now nowCreate = Inl e \<and>
                        (e = BucketKeyEmpty \<or> e = TokensRequiredNotPositive))) \<and>
   (bs key = Some b \<and> bucket_in_range b \<and> validateInput key n cfg = None \<and>
    capacity (config b) < n \<longrightarrow>
      (\<exists>r bs'. check bs key n cfg now nowCreate = Inr (r, bs') \<and> \<not> allowed r \<and>
         retryAfter r = Some \<lceil>(n - tokens (refillBucket b now)) / refillRate (config b)\<rceil> \<and>
         (\<exists>b'. bs' key = Some b' \<and> blocked b' = blocked b + 1 \<and>
               tokens b' = tokens (refillBucket b now))))"
proof (intro conjI impI)
  assume "tb_capacity tb < n \<and> 0 < n"
  then show "tryConsume tb n now = Inl ExceedsCapacity"
    by (simp add: tryConsume_def)
next
  assume "n \<le> 0"
  then show "tryConsume tb n now = Inl TokensToConsumeNotPositive"
    by (simp add: tryConsume_def)
next
  assume "n \<le> 0"
  then show "\<exists>e. check bs key n cfg now nowCreate = Inl e \<and>
                 (e = BucketKeyEmpty \<or> e = TokensRequiredNotPositive)"
    by (simp add: check_def validateInput_def)
next
  assume a: "bs key = Some b \<and> bucket_in_range b \<and> validateInput key n cfg = None \<and>
             capacity (config b) < n"
  have "bucket_in_range (refillBucket b now)"
    using a by (simp add: refillBucket_in_range)
  moreover have c: "config (refillBucket b now) = config b" "blocked (refillBucket b now) = blocked b"
    by (simp_all add: refillBucket_def Let_def)
  ultimately have lt: "\<not> n \<le> tokens (refillBucket b now)"
    using a by (simp add: bucket_in_range_def)
  show "\<exists>r bs'. check bs key n cfg now nowCreate = Inr (r, bs') \<and> \<not> allowed r \<and>
         retryAfter r = Some \<lceil>(n - tokens (refillBucket b now)) / refillRate (config b)\<rceil> \<and>
         (\<exists>b'. bs' key = Some b' \<and> blocked b' = blocked b + 1 \<and>
               tokens b' = tokens (refillBucket b now))"
    using a lt c by (simp add: check_def Let_def calculateRetryAfter_def)
qed

theorem request_validation_witness:
  "tryConsume \<lparr> tb_tokens = 10, tb_lastRefillTime = 0, tb_capacity = 10, tb_refillRate = 2 \<rparr> 20 0
      = Inl ExceedsCapacity \<and>
   tryConsume \<lparr> tb_tokens = 10, tb_lastRefillTime = 0, tb_capacity = 10, tb_refillRate = 2 \<rparr> 0 0
      = Inl TokensToConsumeNotPositive \<and>
   check Map.empty ''k'' 0 None 0 0 = Inl TokensRequiredNotPositive \<and>
   (\<exists>r bs'. check [''k'' \<mapsto> \<lparr> tokens = 10, consumed = 0, blocked = 0, lastRefill = 0, createdAt = 0,
                       config = \<lparr> capacity = 10, refillRate = 2, initialTokens = None \<rparr> \<rparr>]
               ''k'' 20 None 0 0 = Inr (r, bs') \<and> \<not> allowed r \<and> retryAfter r = Some 5)"
proof -
  let ?tb = "\<lparr> tb_tokens = 10, tb_lastRefillTime = 0, tb_capacity = 10, tb_refillRate = 2 \<rparr>"
  let ?b = "\<lparr> tokens = 10, consumed = 0, blocked = 0, lastRefill = 0, createdAt = 0,
                       config = \<lparr> capacity = 10, refillRate = 2, initialTokens = None \<rparr> \<rparr>"
  have k: "validateInput ''k'' 20 None = None" "validateInput ''k'' 0 None = Some TokensRequiredNotPositive"
    by (simp_all add: validateInput_def trim_is_empty_def is_js_space_def)
  have r: "tokens (refillBucket ?b 0) = 10" by (simp add: refillBucket_def Let_def)
  have e: "check Map.empty ''k'' 0 None 0 0 = Inl TokensRequiredNotPositive"
    using request_validation[of ?tb 0 0 Map.empty "''k''" None 0 ?b] k
    by (auto simp: check_def)
  have c: "\<exists>r bs'. check [''k'' \<mapsto> ?b] ''k'' 20 None 0 0 = Inr (r, bs') \<and> \<not> allowed r \<and>
             retryAfter r = Some 5"
    using request_validation[of ?tb 20 0 "[''k'' \<mapsto> ?b]" "''k''" None 0 ?b] k r
    by (auto simp: bucket_in_range_def)
  have t: "tryConsume ?tb 20 0 = Inl ExceedsCapacity" "tryConsume ?tb 0 0 = Inl TokensToConsumeNotPositive"
    using request_validation[of ?tb 20 0 Map.empty "''k''" None 0 ?b]
          request_validation[of ?tb 0 0 Map.empty "''k''" None 0 ?b]
    by simp_all
  show ?thesis
    using e c t by blast
qed

section \<open>Properties of the URL shortener\<close>

subsection \<open>Generated codes and identifiers\<close>

lemma encodeBase62_loop_nonempty:
  "n > 0 \<or> acc \<noteq> [] \<Longrightarrow> encodeBase62_loop n acc \<noteq> []"
proof (induction n acc rule: encodeBase62_loop.induct)
  case (1 n result)
  show ?case
  proof (cases "n > 0")
    case True
    then have "encodeBase62_loop (n div 62) (BASE62_CHARS ! (n mod 62) # result) \<noteq> []"
      using "1.IH" by simp
    moreover have "encodeBase62_loop n result = encodeBase62_loop (n div 62) (BASE62_CHARS ! (n mod 62) # result)"
      using True by (subst encodeBase62_loop.simps) simp
    ultimately show ?thesis by simp
  next
    case False
    have "encodeBase62_loop n result = result"
      using False by (subst encodeBase62_loop.simps) simp
    then show ?thesis using "1.prems" False by simp
  qed
qed

lemma encodeBase62_nonempty: "encodeBase62 n \<noteq> []"
  by (simp add: encodeBase62_def encodeBase62_loop_nonempty)

lemma generateUniqueShortCode_length: "length (generateUniqueShortCode u) = 6"
  by (simp add: generateUniqueShortCode_def Let_def substring_def padEnd_def
        DEFAULT_SHORT_CODE_LENGTH_def)

lemma toStringRadix_nonempty: "toStringRadix r n \<noteq> []"
proof (cases "r < 2 \<or> n < r")
  case True
  then have "toStringRadix r n = [radix_digit n]"
    by (subst toStringRadix.simps) simp
  then show ?thesis by simp
next
  case False
  then have "toStringRadix r n = toStringRadix r (n div r) @ [radix_digit (n mod r)]"
    by (subst toStringRadix.simps) simp
  then show ?thesis by simp
qed

lemma generateId_nonempty: "generateId env \<noteq> []"
  by (simp add: generateId_def toStringRadix_nonempty)

lemma slice_from_minus2_nonempty: "s \<noteq> [] \<Longrightarrow> slice_from_minus2 s \<noteq> []"
  by (cases s) (auto simp: slice_from_minus2_def)

lemma alias_char_code_char: "alias_char c \<Longrightarrow> code_char c"
  by (auto simp: alias_char_def code_char_def Let_def)

lemma normalizeCustomAlias_Inr:
  assumes "normalizeCustomAlias a = Inr c"
  shows "2 \<le> length c \<and> length c \<le> 20 \<and> list_all alias_char c \<and> a \<noteq> []"
  using assms
  by (auto simp: normalizeCustomAlias_def Let_def substring_def MAX_CUSTOM_ALIAS_LENGTH_def
        toLowerCase_def list_all_iff split: if_splits dest: in_set_takeD)

lemma normalized_alias_valid_code:
  "normalizeCustomAlias a = Inr c \<Longrightarrow> validateShortCode c = None"
  using normalizeCustomAlias_Inr[of a c]
  by (auto simp: validateShortCode_def MAX_CUSTOM_ALIAS_LENGTH_def list_all_iff
        intro: alias_char_code_char)

lemma resolveCollision_loop_Inr:
  "resolveCollision_loop s e u env k = (Inr c, n) \<Longrightarrow> 2 < length e \<Longrightarrow>
     codeToIdMap s c = None \<and> c \<noteq> []"
proof (induction s e u env k rule: resolveCollision_loop.induct)
  case (1 s e u env k)
  have ne: "slice_to_minus2 e \<noteq> []"
    using "1.prems"(2) by (cases e) (auto simp: slice_to_minus2_def)
  have e62: "substring (encodeBase62 h) 0 DEFAULT_SHORT_CODE_LENGTH \<noteq> []" for h
    using encodeBase62_nonempty[of h]
    by (simp add: substring_def DEFAULT_SHORT_CODE_LENGTH_def)
  from "1.prems"(1) show ?case
    apply (subst (asm) resolveCollision_loop.simps)
    using "1.IH" "1.prems"(2) ne e62
    by (auto simp: Let_def split: if_splits)
qed

lemma choose_code_Inr:
  assumes "choose_code s u opts env = Inr (c, b)"
  shows "codeToIdMap s c = None \<and> c \<noteq> []"
proof (cases "truthy (customAlias opts)")
  case None
  have l: "2 < length (generateUniqueShortCode u)"
    by (simp add: generateUniqueShortCode_length)
  have n: "generateUniqueShortCode u \<noteq> []"
    using l by auto
  show ?thesis
  proof (cases "codeToIdMap s (generateUniqueShortCode u) = None")
    case True
    then show ?thesis using assms None n
      by (auto simp: choose_code_def Let_def)
  next
    case False
    then obtain k where "resolveCollision_loop s (generateUniqueShortCode u) u env 0 = (Inr c, k)"
      using assms None
      by (auto simp: choose_code_def Let_def resolveCollision_def split: sum.splits)
         (metis fst_conv surj_pair)
    then show ?thesis using resolveCollision_loop_Inr l by blast
  qed
next
  case (Some a)
  then obtain "normalizeCustomAlias a = Inr c" "codeToIdMap s c = None"
    using assms by (auto simp: choose_code_def split: sum.splits if_splits)
  then show ?thesis using normalizeCustomAlias_Inr[of a c] by auto
qed

subsection \<open>The three indices stay consistent\<close>

text \<open>
  \<open>store_inv\<close> holds for a new store and is kept by \<open>shorten\<close> (when the generated
  id, a time stamp followed by a random string, is new to \<open>urlMap\<close>), by \<open>expand\<close>
  and by \<open>deleteUrl\<close>.
\<close>

lemma store_inv_rec:
  "store_inv s \<Longrightarrow> urlMap s i = Some r \<Longrightarrow>
     id_url r = i \<and> i \<noteq> [] \<and> shortCode r \<noteq> [] \<and>
     codeToIdMap s (shortCode r) = Some i \<and>
     originalUrlToCodeMap s (originalUrl r) = Some (shortCode r)"
  unfolding store_inv_def by blast

lemma store_inv_code:
  "store_inv s \<Longrightarrow> codeToIdMap s c = Some i \<Longrightarrow> \<exists>r. urlMap s i = Some r \<and> shortCode r = c"
  unfolding store_inv_def by blast

lemma store_inv_url:
  assumes "store_inv s" and "originalUrlToCodeMap s u = Some c"
  shows "\<exists>i r. codeToIdMap s c = Some i \<and> urlMap s i = Some r \<and> originalUrl r = u \<and>
               shortCode r = c"
proof -
  from assms obtain i r where a: "codeToIdMap s c = Some i" "urlMap s i = Some r" "originalUrl r = u"
    unfolding store_inv_def by blast
  from store_inv_rec[OF assms(1) a(2)] a(3) assms(2) have "shortCode r = c" by simp
  with a show ?thesis by blast
qed

lemma store_invI:
  assumes "\<And>i r. urlMap s i = Some r \<Longrightarrow>
             id_url r = i \<and> i \<noteq> [] \<and> shortCode r \<noteq> [] \<and>
             codeToIdMap s (shortCode r) = Some i \<and>
             originalUrlToCodeMap s (originalUrl r) = Some (shortCode r)"
    and "\<And>c i. codeToIdMap s c = Some i \<Longrightarrow> \<exists>r. urlMap s i = Some r \<and> shortCode r = c"
    and "\<And>u c. originalUrlToCodeMap s u = Some c \<Longrightarrow>
             \<exists>i r. codeToIdMap s c = Some i \<and> urlMap s i = Some r \<and> originalUrl r = u"
  shows "store_inv s"
  unfolding store_inv_def using assms by blast

lemma store_inv_truthy_url:
  "store_inv s \<Longrightarrow> truthy (originalUrlToCodeMap s u) = originalUrlToCodeMap s u"
proof (cases "originalUrlToCodeMap s u")
  case None
  then show ?thesis by (simp add: truthy_def)
next
  case (Some c)
  assume "store_inv s"
  from store_inv_url[OF this Some] store_inv_rec[OF this] have "c \<noteq> []" by blast
  then show ?thesis using Some by (simp add: truthy_def)
qed

lemma store_inv_truthy_code:
  "store_inv s \<Longrightarrow> truthy (codeToIdMap s c) = codeToIdMap s c"
proof (cases "codeToIdMap s c")
  case None
  then show ?thesis by (simp add: truthy_def)
next
  case (Some i)
  assume "store_inv s"
  from store_inv_code[OF this Some] store_inv_rec[OF this] have "i \<noteq> []" by blast
  then show ?thesis using Some by (simp add: truthy_def)
qed

lemma store_inv_insert:
  assumes inv: "store_inv s"
    and fresh: "urlMap s i = None" and free: "codeToIdMap s c = None"
    and new: "originalUrlToCodeMap s u = None" and ne: "c \<noteq> []" "i \<noteq> []"
  shows "store_inv (s\<lparr> urlMap := (urlMap s)(i \<mapsto> \<lparr> id_url = i, originalUrl = u, shortCode = c,
                                                   createdAt_url = t, clickCount = n \<rparr>),
                        codeToIdMap := (codeToIdMap s)(c \<mapsto> i),
                        originalUrlToCodeMap := (originalUrlToCodeMap s)(u \<mapsto> c) \<rparr>)"
    (is "store_inv ?s'")
proof (rule store_invI)
  fix j r assume a: "urlMap ?s' j = Some r"
  show "id_url r = j \<and> j \<noteq> [] \<and> shortCode r \<noteq> [] \<and>
        codeToIdMap ?s' (shortCode r) = Some j \<and>
        originalUrlToCodeMap ?s' (originalUrl r) = Some (shortCode r)"
  proof (cases "j = i")
    case True
    then show ?thesis using a ne by auto
  next
    case False
    then have r: "urlMap s j = Some r" using a by simp
    note f = store_inv_rec[OF inv r]
    have "shortCode r \<noteq> c" using f free by auto
    moreover have "originalUrl r \<noteq> u" using f new by auto
    ultimately show ?thesis using f by simp
  qed
next
  fix d j assume a: "codeToIdMap ?s' d = Some j"
  show "\<exists>r. urlMap ?s' j = Some r \<and> shortCode r = d"
  proof (cases "d = c")
    case True
    then show ?thesis using a by auto
  next
    case False
    then have "codeToIdMap s d = Some j" using a by simp
    from store_inv_code[OF inv this] obtain r where r: "urlMap s j = Some r" "shortCode r = d"
      by blast
    then have "j \<noteq> i" using fresh by auto
    then show ?thesis using r by simp
  qed
next
  fix v d assume a: "originalUrlToCodeMap ?s' v = Some d"
  show "\<exists>j r. codeToIdMap ?s' d = Some j \<and> urlMap ?s' j = Some r \<and> originalUrl r = v"
  proof (cases "v = u")
    case True
    then show ?thesis using a by auto
  next
    case False
    then have "originalUrlToCodeMap s v = Some d" using a by simp
    from store_inv_url[OF inv this] obtain j r where
      r: "codeToIdMap s d = Some j" "urlMap s j = Some r" "originalUrl r = v"
      by blast
    then have "j \<noteq> i" "d \<noteq> c" using fresh free by auto
    then show ?thesis using r by simp
  qed
qed

lemma deleteUrl_True:
  assumes "deleteUrl s c = (True, s')"
  shows "\<exists>i r. truthy (codeToIdMap s c) = Some i \<and> urlMap s i = Some r \<and>
           s' = s\<lparr> urlMap := (urlMap s)(i := None),
                    codeToIdMap := (codeToIdMap s)(c := None),
                    originalUrlToCodeMap := (originalUrlToCodeMap s)(originalUrl r := None) \<rparr>"
  using assms by (auto simp: deleteUrl_def split: option.splits)

lemma store_inv_remove:
  assumes inv: "store_inv s" and i: "codeToIdMap s c = Some i" and r: "urlMap s i = Some r"
  shows "store_inv (s\<lparr> urlMap := (urlMap s)(i := None),
                        codeToIdMap := (codeToIdMap s)(c := None),
                        originalUrlToCodeMap := (originalUrlToCodeMap s)(originalUrl r := None) \<rparr>)"
    (is "store_inv ?s'")
proof (rule store_invI)
  have rc: "shortCode r = c"
    using store_inv_code[OF inv i] r by auto
  note fr = store_inv_rec[OF inv r]
  {
    fix j q assume a: "urlMap ?s' j = Some q"
    then have ji: "j \<noteq> i" and q: "urlMap s j = Some q"
      by (auto split: if_splits)
    note f = store_inv_rec[OF inv q]
    have "shortCode q \<noteq> c" using f i ji by auto
    moreover have "originalUrl q \<noteq> originalUrl r"
      using f fr rc \<open>shortCode q \<noteq> c\<close> by auto
    ultimately show "id_url q = j \<and> j \<noteq> [] \<and> shortCode q \<noteq> [] \<and>
        codeToIdMap ?s' (shortCode q) = Some j \<and>
        originalUrlToCodeMap ?s' (originalUrl q) = Some (shortCode q)"
      using f by simp
  next
    fix d j assume a: "codeToIdMap ?s' d = Some j"
    then have dc: "d \<noteq> c" and d: "codeToIdMap s d = Some j"
      by (auto split: if_splits)
    from store_inv_code[OF inv d] obtain q where q: "urlMap s j = Some q" "shortCode q = d"
      by blast
    have "j \<noteq> i" using q r rc dc by auto
    then show "\<exists>q. urlMap ?s' j = Some q \<and> shortCode q = d" using q by simp
  next
    fix v d assume a: "originalUrlToCodeMap ?s' v = Some d"
    then have vu: "v \<noteq> originalUrl r" and v: "originalUrlToCodeMap s v = Some d"
      by (auto split: if_splits)
    from store_inv_url[OF inv v] obtain j q where
      q: "codeToIdMap s d = Some j" "urlMap s j = Some q" "originalUrl q = v" "shortCode q = d"
      by blast
    have ji: "j \<noteq> i" using q r vu by auto
    have "d \<noteq> c" using q i ji by auto
    then show "\<exists>j q. codeToIdMap ?s' d = Some j \<and> urlMap ?s' j = Some q \<and> originalUrl q = v"
      using q ji by simp
  }
qed

lemma store_inv_delete:
  assumes inv: "store_inv s"
  shows "store_inv (snd (deleteUrl s c))"
proof (cases "fst (deleteUrl s c)")
  case True
  then have "deleteUrl s c = (True, snd (deleteUrl s c))" by (metis prod.collapse)
  from deleteUrl_True[OF this] store_inv_truthy_code[OF inv] store_inv_remove[OF inv]
  show ?thesis by metis
next
  case False
  then have "snd (deleteUrl s c) = s"
    by (auto simp: deleteUrl_def split: option.splits)
  then show ?thesis using inv by simp
qed

lemma store_inv_expand:
  assumes inv: "store_inv s"
  shows "store_inv (snd (expand s c))"
proof (cases "expand_try s c")
  case (Inl e)
  then show ?thesis using inv by (simp add: expand_def)
next
  case (Inr p)
  then obtain i r where i: "codeToIdMap s c = Some i" and r: "urlMap s i = Some r"
    and s': "snd (expand s c) = s\<lparr> urlMap := (urlMap s)(i \<mapsto> r\<lparr> clickCount := clickCount r + 1 \<rparr>) \<rparr>"
    by (auto simp: expand_def expand_try_def truthy_def split: option.splits if_splits)
  show ?thesis
    unfolding s'
  proof (rule store_invI)
    fix j q assume "urlMap (s\<lparr> urlMap := (urlMap s)(i \<mapsto> r\<lparr> clickCount := clickCount r + 1 \<rparr>) \<rparr>) j = Some q"
    then consider "j = i" "q = r\<lparr> clickCount := clickCount r + 1 \<rparr>" | "j \<noteq> i" "urlMap s j = Some q"
      by (auto split: if_splits)
    then show "id_url q = j \<and> j \<noteq> [] \<and> shortCode q \<noteq> [] \<and>
        codeToIdMap (s\<lparr> urlMap := (urlMap s)(i \<mapsto> r\<lparr> clickCount := clickCount r + 1 \<rparr>) \<rparr>) (shortCode q) = Some j \<and>
        originalUrlToCodeMap (s\<lparr> urlMap := (urlMap s)(i \<mapsto> r\<lparr> clickCount := clickCount r + 1 \<rparr>) \<rparr>) (originalUrl q) = Some (shortCode q)"
      using store_inv_rec[OF inv r] store_inv_rec[OF inv, of j q] by cases simp_all
  next
    fix d j assume "codeToIdMap (s\<lparr> urlMap := (urlMap s)(i \<mapsto> r\<lparr> clickCount := clickCount r + 1 \<rparr>) \<rparr>) d = Some j"
    then have "codeToIdMap s d = Some j" by simp
    from store_inv_code[OF inv this] r
    show "\<exists>q. urlMap (s\<lparr> urlMap := (urlMap s)(i \<mapsto> r\<lparr> clickCount := clickCount r + 1 \<rparr>) \<rparr>) j = Some q \<and> shortCode q = d"
      by (cases "j = i") auto
  next
    fix v d assume "originalUrlToCodeMap (s\<lparr> urlMap := (urlMap s)(i \<mapsto> r\<lparr> clickCount := clickCount r + 1 \<rparr>) \<rparr>) v = Some d"
    then have "originalUrlToCodeMap s v = Some d" by simp
    from store_inv_url[OF inv this] obtain j q where
      q: "codeToIdMap s d = Some j" "urlMap s j = Some q" "originalUrl q = v" by blast
    then show "\<exists>j q. codeToIdMap (s\<lparr> urlMap := (urlMap s)(i \<mapsto> r\<lparr> clickCount := clickCount r + 1 \<rparr>) \<rparr>) d = Some j \<and>
        urlMap (s\<lparr> urlMap := (urlMap s)(i \<mapsto> r\<lparr> clickCount := clickCount r + 1 \<rparr>) \<rparr>) j = Some q \<and> originalUrl q = v"
      using r by (cases "j = i") auto
  qed
qed

lemma shorten_existing:
  assumes "validateUrl P u = None" and "truthy (originalUrlToCodeMap s u) = Some c"
  shows "shorten P s u opts env =
           Inr (\<lparr> sr_success = True, sr_shortCode = c, sr_shortUrl = BASE_DOMAIN s @ ''/'' @ c,
                   sr_originalUrl = u, sr_message = Some ''URL already shortened'',
                   sr_collisionResolved = None \<rparr>, s)"
  using assms by (simp add: shorten_def)

lemma shorten_new:
  assumes "validateUrl P u = None" and "truthy (originalUrlToCodeMap s u) = None"
    and "choose_code s u opts env = Inr (c, b)"
  shows "shorten P s u opts env =
           Inr (\<lparr> sr_success = True, sr_shortCode = c, sr_shortUrl = BASE_DOMAIN s @ ''/'' @ c,
                   sr_originalUrl = u, sr_message = None, sr_collisionResolved = Some b \<rparr>,
                s\<lparr> urlMap := (urlMap s)(generateId env \<mapsto>
                        \<lparr> id_url = generateId env, originalUrl = u, shortCode = c,
                          createdAt_url = createdNow env, clickCount = 0 \<rparr>),
                   codeToIdMap := (codeToIdMap s)(c \<mapsto> generateId env),
                   originalUrlToCodeMap := (originalUrlToCodeMap s)(u \<mapsto> c) \<rparr>)"
  using assms by (simp add: shorten_def Let_def)

lemma shorten_Inr:
  assumes "shorten P s u opts env = Inr (r, s')"
  shows "validateUrl P u = None \<and>
         ((truthy (originalUrlToCodeMap s u) = Some (sr_shortCode r) \<and> s' = s \<and>
           sr_message r = Some ''URL already shortened'') \<or>
          (truthy (originalUrlToCodeMap s u) = None \<and>
           (\<exists>b. choose_code s u opts env = Inr (sr_shortCode r, b)) \<and> sr_message r = None \<and>
           s' = s\<lparr> urlMap := (urlMap s)(generateId env \<mapsto>
                        \<lparr> id_url = generateId env, originalUrl = u, shortCode = sr_shortCode r,
                          createdAt_url = createdNow env, clickCount = 0 \<rparr>),
                   codeToIdMap := (codeToIdMap s)(sr_shortCode r \<mapsto> generateId env),
                   originalUrlToCodeMap := (originalUrlToCodeMap s)(u \<mapsto> sr_shortCode r) \<rparr>))"
  using assms by (auto simp: shorten_def Let_def split: option.splits sum.splits)

lemma store_inv_shorten:
  assumes inv: "store_inv s" and fresh: "urlMap s (generateId env) = None"
    and sh: "shorten P s u opts env = Inr (r, s')"
  shows "store_inv s'"
proof -
  from shorten_Inr[OF sh] consider
      (old) "s' = s"
    | (new) b where "truthy (originalUrlToCodeMap s u) = None"
        "choose_code s u opts env = Inr (sr_shortCode r, b)"
        "s' = s\<lparr> urlMap := (urlMap s)(generateId env \<mapsto>
                        \<lparr> id_url = generateId env, originalUrl = u, shortCode = sr_shortCode r,
                          createdAt_url = createdNow env, clickCount = 0 \<rparr>),
                   codeToIdMap := (codeToIdMap s)(sr_shortCode r \<mapsto> generateId env),
                   originalUrlToCodeMap := (originalUrlToCodeMap s)(u \<mapsto> sr_shortCode r) \<rparr>"
    by blast
  then show ?thesis
  proof cases
    case old
    then show ?thesis using inv by simp
  next
    case new
    have n: "originalUrlToCodeMap s u = None"
      using new(1) store_inv_truthy_url[OF inv] by simp
    from choose_code_Inr[OF new(2)] have c: "codeToIdMap s (sr_shortCode r) = None" "sr_shortCode r \<noteq> []"
      by simp_all
    show ?thesis
      unfolding new(3)
      by (rule store_inv_insert[OF inv fresh c(1) n c(2) generateId_nonempty])
  qed
qed

lemma store_inv_new:
  "new_URLShortener P d = Inr s \<Longrightarrow> store_inv s"
  by (auto simp: new_URLShortener_def store_inv_def split: if_splits)

lemma unique_record_for_url:
  assumes inv: "store_inv s" and u: "originalUrlToCodeMap s u = Some c"
  shows "\<exists>!i. \<exists>r. urlMap s i = Some r \<and> originalUrl r = u"
proof -
  from store_inv_url[OF inv u] obtain i r where
    a: "codeToIdMap s c = Some i" "urlMap s i = Some r" "originalUrl r = u" by blast
  show ?thesis
  proof (rule ex1I[of _ i])
    show "\<exists>r. urlMap s i = Some r \<and> originalUrl r = u" using a by blast
  next
    fix j assume "\<exists>q. urlMap s j = Some q \<and> originalUrl q = u"
    then obtain q where q: "urlMap s j = Some q" "originalUrl q = u" by blast
    from store_inv_rec[OF inv q(1)] q(2) u have "codeToIdMap s c = Some j" by simp
    then show "j = i" using a by simp
  qed
qed

subsection \<open>Shortening the same URL again\<close>

text \<open>
  Claim C6 (idempotent shortening). In a consistent store, when \<open>shorten(u)\<close> has
  returned a result, a second \<open>shorten(u)\<close>, with any options and in any environment,
  returns the same short code, leaves the store exactly as it was, and the store holds
  exactly one record whose original URL is \<open>u\<close>.
\<close>

theorem shorten_idempotent:
  assumes inv: "store_inv s" and sh: "shorten P s u opts env = Inr (r1, s1)"
  shows "shorten P s1 u opts2 env2 =
           Inr (\<lparr> sr_success = True, sr_shortCode = sr_shortCode r1,
                   sr_shortUrl = BASE_DOMAIN s1 @ ''/'' @ sr_shortCode r1,
                   sr_originalUrl = u, sr_message = Some ''URL already shortened'',
                   sr_collisionResolved = None \<rparr>, s1) \<and>
         originalUrlToCodeMap s1 u = Some (sr_shortCode r1) \<and>
         (\<exists>!i. \<exists>r. urlMap s1 i = Some r \<and> originalUrl r = u)"
proof -
  from shorten_Inr[OF sh] have v: "validateUrl P u = None" by simp
  from shorten_Inr[OF sh] consider
      (old) "truthy (originalUrlToCodeMap s u) = Some (sr_shortCode r1)" "s1 = s"
    | (new) b where "truthy (originalUrlToCodeMap s u) = None"
        "choose_code s u opts env = Inr (sr_shortCode r1, b)"
        "s1 = s\<lparr> urlMap := (urlMap s)(generateId env \<mapsto>
                        \<lparr> id_url = generateId env, originalUrl = u, shortCode = sr_shortCode r1,
                          createdAt_url = createdNow env, clickCount = 0 \<rparr>),
                   codeToIdMap := (codeToIdMap s)(sr_shortCode r1 \<mapsto> generateId env),
                   originalUrlToCodeMap := (originalUrlToCodeMap s)(u \<mapsto> sr_shortCode r1) \<rparr>"
    by blast
  then show ?thesis
  proof cases
    case old
    have m: "originalUrlToCodeMap s u = Some (sr_shortCode r1)"
      using old(1) store_inv_truthy_url[OF inv, of u] by simp
    show ?thesis
      using shorten_existing[OF v old(1)] m unique_record_for_url[OF inv m] old(2) by simp
  next
    case new
    have n: "originalUrlToCodeMap s u = None"
      using new(1) store_inv_truthy_url[OF inv] by simp
    from choose_code_Inr[OF new(2)] have c: "sr_shortCode r1 \<noteq> []" by simp
    have m: "originalUrlToCodeMap s1 u = Some (sr_shortCode r1)"
      by (simp add: new(3))
    then have t: "truthy (originalUrlToCodeMap s1 u) = Some (sr_shortCode r1)"
      using c by (simp add: truthy_def)
    have one: "\<exists>!i. \<exists>r. urlMap s1 i = Some r \<and> originalUrl r = u"
    proof (rule ex1I[of _ "generateId env"])
      show "\<exists>r. urlMap s1 (generateId env) = Some r \<and> originalUrl r = u"
        by (simp add: new(3))
    next
      fix j assume "\<exists>q. urlMap s1 j = Some q \<and> originalUrl q = u"
      then obtain q where q: "urlMap s1 j = Some q" "originalUrl q = u" by blast
      show "j = generateId env"
      proof (rule ccontr)
        assume "j \<noteq> generateId env"
        then have "urlMap s j = Some q" using q(1) by (simp add: new(3))
        from store_inv_rec[OF inv this] q(2) n show False by simp
      qed
    qed
    show ?thesis
      using shorten_existing[OF v t] m one by simp
  qed
qed

subsection \<open>The example store, evaluated\<close>

lemma generateHash_example: "generateHash ''http://a.b'' = 155236035"
  by (simp add: generateHash_def hash_step_def toInt32_def)

lemma encodeBase62_example: "encodeBase62 155236035 = ''AVLz1''"
  by (simp add: encodeBase62_def encodeBase62_loop.simps BASE62_CHARS_def)

lemma generateUniqueShortCode_example: "generateUniqueShortCode ''http://a.b'' = ''AVLz10''"
  by (simp add: generateUniqueShortCode_def generateHash_example encodeBase62_example Let_def
        substring_def padEnd_def DEFAULT_SHORT_CODE_LENGTH_def)

lemma generateId_example: "generateId example_env = ''1700000000000-4fzyo82''"
  by (simp add: generateId_def example_env_def toStringRadix.simps radix_digit_def substring_def)

lemma generateId_example2: "generateId example_env2 = ''1700000005000-b81x2kd''"
  by (simp add: generateId_def example_env2_def toStringRadix.simps radix_digit_def substring_def)

lemma validateUrl_example: "validateUrl example_parseUrl ''http://a.b'' = None"
  by (simp add: validateUrl_def isValidUrl_def example_parseUrl_def toLowerCase_def)

lemma createdNow_example: "createdNow example_env = 1700000000000"
  by (simp add: example_env_def)

lemma shorten_example:
  "shorten example_parseUrl example_store ''http://a.b'' no_options example_env =
     Inr (\<lparr> sr_success = True, sr_shortCode = ''AVLz10'',
             sr_shortUrl = ''https://short.url/AVLz10'', sr_originalUrl = ''http://a.b'',
             sr_message = None, sr_collisionResolved = Some False \<rparr>, example_store1)"
  by (simp add: shorten_def validateUrl_example truthy_def example_store_def example_store1_def
        choose_code_def no_options_def generateUniqueShortCode_example generateId_example
        createdNow_example Let_def)

theorem shorten_idempotent_witness:
  "store_inv example_store \<and>
   shorten example_parseUrl example_store ''http://a.b'' no_options example_env =
     Inr (\<lparr> sr_success = True, sr_shortCode = ''AVLz10'',
             sr_shortUrl = ''https://short.url/AVLz10'', sr_originalUrl = ''http://a.b'',
             sr_message = None, sr_collisionResolved = Some False \<rparr>, example_store1) \<and>
   shorten example_parseUrl example_store1 ''http://a.b'' no_options example_env2 =
     Inr (\<lparr> sr_success = True, sr_shortCode = ''AVLz10'',
             sr_shortUrl = ''https://short.url/AVLz10'', sr_originalUrl = ''http://a.b'',
             sr_message = Some ''URL already shortened'', sr_collisionResolved = None \<rparr>,
          example_store1) \<and>
   (\<exists>!i. \<exists>r. urlMap example_store1 i = Some r \<and> originalUrl r = ''http://a.b'')"
proof -
  have h1: "store_inv example_store"
    by (simp add: store_inv_def example_store_def)
  have b: "BASE_DOMAIN example_store1 = ''https://short.url''"
    by (simp add: example_store1_def)
  show ?thesis
    using h1 shorten_example shorten_idempotent[OF h1 shorten_example, of no_options example_env2] b
    by simp
qed

subsection \<open>Custom aliases\<close>

text \<open>
  Claim C8 (custom alias exclusivity). Two valid, distinct URLs that are not yet in the
  store are shortened with the same custom alias, which normalises to a code \<open>c\<close> that
  is not assigned. The first call succeeds with short code \<open>c\<close>. The second call fails
  with \<open>ALIAS_COLLISION\<close> in every environment: the collision ladder, the only reader
  of the environment on this path, is not run. A throw returns no new store, so the
  first record is as it was: \<open>getStats\<close> returns it unchanged and \<open>expand\<close> returns
  the first URL.
\<close>

theorem alias_exclusive:
  assumes v1: "validateUrl P u1 = None" and v2: "validateUrl P u2 = None" and d: "u1 \<noteq> u2"
    and n1: "originalUrlToCodeMap s u1 = None" and n2: "originalUrlToCodeMap s u2 = None"
    and a1: "customAlias opts1 = Some a" and a2: "customAlias opts2 = Some a"
    and norm: "normalizeCustomAlias a = Inr c" and free: "codeToIdMap s c = None"
  shows "\<exists>r1 s1.
           shorten P s u1 opts1 env1 = Inr (r1, s1) \<and> sr_shortCode r1 = c \<and>
           sr_collisionResolved r1 = Some False \<and>
           shorten P s1 u2 opts2 env2 = Inl ALIAS_COLLISION \<and>
           getStats s1 c = Some \<lparr> id_url = generateId env1, originalUrl = u1, shortCode = c,
                                   createdAt_url = createdNow env1, clickCount = 0 \<rparr> \<and>
           fst (expand s1 c) = \<lparr> er_success = True, er_originalUrl = Some u1, er_message = None \<rparr>"
proof -
  have ane: "a \<noteq> []" using normalizeCustomAlias_Inr[OF norm] by simp
  then have t: "truthy (Some a) = Some a" by (simp add: truthy_def)
  have cc: "choose_code s u1 opts1 env1 = Inr (c, False)"
    using a1 t norm free by (simp add: choose_code_def)
  have t1: "truthy (originalUrlToCodeMap s u1) = None"
    using n1 by (simp add: truthy_def)
  let ?rec = "\<lparr> id_url = generateId env1, originalUrl = u1, shortCode = c,
                 createdAt_url = createdNow env1, clickCount = 0 \<rparr>"
  let ?s1 = "s\<lparr> urlMap := (urlMap s)(generateId env1 \<mapsto> ?rec),
                codeToIdMap := (codeToIdMap s)(c \<mapsto> generateId env1),
                originalUrlToCodeMap := (originalUrlToCodeMap s)(u1 \<mapsto> c) \<rparr>"
  note first = shorten_new[OF v1 t1 cc]
  have ti: "truthy (Some (generateId env1)) = Some (generateId env1)"
    using generateId_nonempty[of env1] by (simp add: truthy_def)
  have second: "shorten P ?s1 u2 opts2 env2 = Inl ALIAS_COLLISION"
    using v2 n2 d a2 t norm
    by (simp add: shorten_def choose_code_def truthy_def)
  have stats: "getStats ?s1 c = Some ?rec"
    using ti by (simp add: getStats_def)
  have ex: "fst (expand ?s1 c) = \<lparr> er_success = True, er_originalUrl = Some u1, er_message = None \<rparr>"
    using ti normalized_alias_valid_code[OF norm]
    by (simp add: expand_def expand_try_def)
  show ?thesis
    using first second stats ex by simp
qed

lemma normalizeCustomAlias_example: "normalizeCustomAlias ''About Page!'' = Inr ''aboutpage''"
  by code_simp

lemma validateUrl_example2: "validateUrl example_parseUrl ''http://c.d'' = None"
  by (simp add: validateUrl_def isValidUrl_def example_parseUrl_def toLowerCase_def)

theorem alias_exclusive_witness:
  "validateUrl example_parseUrl ''http://a.b'' = None \<and>
   validateUrl example_parseUrl ''http://c.d'' = None \<and>
   normalizeCustomAlias ''About Page!'' = Inr ''aboutpage'' \<and>
   (\<exists>r1 s1.
      shorten example_parseUrl example_store ''http://a.b''
          \<lparr> customAlias = Some ''About Page!'', expireAfterDays = None \<rparr> example_env
        = Inr (r1, s1) \<and>
      sr_shortCode r1 = ''aboutpage'' \<and>
      shorten example_parseUrl s1 ''http://c.d''
          \<lparr> customAlias = Some ''About Page!'', expireAfterDays = None \<rparr> example_env2
        = Inl ALIAS_COLLISION \<and>
      getStats s1 ''aboutpage'' =
        Some \<lparr> id_url = ''1700000000000-4fzyo82'', originalUrl = ''http://a.b'',
               shortCode = ''aboutpage'', createdAt_url = 1700000000000, clickCount = 0 \<rparr> \<and>
      fst (expand s1 ''aboutpage'') =
        \<lparr> er_success = True, er_originalUrl = Some ''http://a.b'', er_message = None \<rparr>)"
proof -
  have m: "originalUrlToCodeMap example_store ''http://a.b'' = None"
          "originalUrlToCodeMap example_store ''http://c.d'' = None"
          "codeToIdMap example_store ''aboutpage'' = None"
    by (simp_all add: example_store_def)
  have o: "customAlias \<lparr> customAlias = Some ''About Page!'', expireAfterDays = None \<rparr>
             = Some ''About Page!''" by simp
  have d: "''http://a.b'' \<noteq> ''http://c.d''" by simp
  from alias_exclusive[OF validateUrl_example validateUrl_example2 d m(1) m(2) o o
         normalizeCustomAlias_example m(3), of example_env example_env2]
  show ?thesis
    using validateUrl_example validateUrl_example2 normalizeCustomAlias_example
    by (auto simp add: generateId_example createdNow_example)
qed

subsection \<open>Deleting and shortening again\<close>

lemma expand_unknown:
  assumes "codeToIdMap s c = None"
  shows "er_success (fst (expand s c)) = False \<and> snd (expand s c) = s \<and>
         (validateShortCode c = None \<longrightarrow>
            er_message (fst (expand s c)) = Some ''Short URL not found'')"
  using assms
  by (cases "validateShortCode c") (simp_all add: expand_def expand_try_def truthy_def)

lemma shorten_after_delete:
  assumes n: "originalUrlToCodeMap s u = None"
    and sh: "shorten P s u opts env = Inr (r2, s2)"
  shows "sr_message r2 = None \<and>
         urlMap s2 (generateId env) =
           Some \<lparr> id_url = generateId env, originalUrl = u, shortCode = sr_shortCode r2,
                  createdAt_url = createdNow env, clickCount = 0 \<rparr> \<and>
         getStats s2 (sr_shortCode r2) =
           Some \<lparr> id_url = generateId env, originalUrl = u, shortCode = sr_shortCode r2,
                  createdAt_url = createdNow env, clickCount = 0 \<rparr> \<and>
         (truthy (customAlias opts) = None \<and> codeToIdMap s (generateUniqueShortCode u) = None \<longrightarrow>
            sr_shortCode r2 = generateUniqueShortCode u)"
proof -
  have t: "truthy (originalUrlToCodeMap s u) = None" using n by (simp add: truthy_def)
  with shorten_Inr[OF sh] obtain b where
    cc: "choose_code s u opts env = Inr (sr_shortCode r2, b)" and m: "sr_message r2 = None"
    and s2: "s2 = s\<lparr> urlMap := (urlMap s)(generateId env \<mapsto>
                        \<lparr> id_url = generateId env, originalUrl = u, shortCode = sr_shortCode r2,
                          createdAt_url = createdNow env, clickCount = 0 \<rparr>),
                   codeToIdMap := (codeToIdMap s)(sr_shortCode r2 \<mapsto> generateId env),
                   originalUrlToCodeMap := (originalUrlToCodeMap s)(u \<mapsto> sr_shortCode r2) \<rparr>"
    by auto
  have ti: "truthy (Some (generateId env)) = Some (generateId env)"
    using generateId_nonempty[of env] by (simp add: truthy_def)
  have g: "truthy (customAlias opts) = None \<and> codeToIdMap s (generateUniqueShortCode u) = None \<longrightarrow>
            sr_shortCode r2 = generateUniqueShortCode u"
    using cc by (auto simp: choose_code_def Let_def)
  show ?thesis
    using m g ti by (simp add: s2 getStats_def)
qed

text \<open>
  Claim C9, as the code has it. Let \<open>c\<close> be a stored code with id \<open>i\<close> and record
  \<open>r\<close> in a consistent store. Then \<open>deleteUrl(c)\<close> returns true; afterwards no index
  mentions \<open>c\<close>, \<open>i\<close> or the URL of \<open>r\<close>, and \<open>expand(c)\<close> fails without
  changing the store, with the message of \<open>NOT_FOUND\<close> when \<open>c\<close> is a well-formed
  code. A later \<open>shorten\<close> of the same URL that succeeds creates a record under the
  newly generated id with click count 0. Its code is generated again from the URL:
  without a custom alias it is the hash code of the URL whenever that code is
  unassigned, so it is \<open>c\<close> again when \<open>c\<close> was that hash code.
\<close>

theorem delete_then_expand:
  assumes inv: "store_inv s" and i: "codeToIdMap s c = Some i" and r: "urlMap s i = Some r"
    and del: "deleteUrl s c = (b, s')"
  shows "b \<and> store_inv s' \<and>
         codeToIdMap s' c = None \<and> urlMap s' i = None \<and>
         originalUrlToCodeMap s' (originalUrl r) = None \<and>
         (\<forall>c'. codeToIdMap s' c' \<noteq> Some i) \<and>
         (\<forall>u'. originalUrlToCodeMap s' u' \<noteq> Some c) \<and>
         (\<forall>j q. urlMap s' j = Some q \<longrightarrow>
            id_url q \<noteq> i \<and> shortCode q \<noteq> c \<and> originalUrl q \<noteq> originalUrl r) \<and>
         er_success (fst (expand s' c)) = False \<and> snd (expand s' c) = s' \<and>
         (validateShortCode c = None \<longrightarrow>
            er_message (fst (expand s' c)) = Some ''Short URL not found'') \<and>
         (shorten P s' (originalUrl r) opts env = Inr (r2, s2) \<longrightarrow>
            sr_message r2 = None \<and>
            getStats s2 (sr_shortCode r2) =
              Some \<lparr> id_url = generateId env, originalUrl = originalUrl r,
                     shortCode = sr_shortCode r2, createdAt_url = createdNow env,
                     clickCount = 0 \<rparr> \<and>
            (truthy (customAlias opts) = None \<and>
             codeToIdMap s' (generateUniqueShortCode (originalUrl r)) = None \<longrightarrow>
               sr_shortCode r2 = generateUniqueShortCode (originalUrl r)) \<and>
            (truthy (customAlias opts) = None \<and> c = generateUniqueShortCode (originalUrl r) \<longrightarrow>
               sr_shortCode r2 = c))"
proof -
  let ?s' = "s\<lparr> urlMap := (urlMap s)(i := None),
                codeToIdMap := (codeToIdMap s)(c := None),
                originalUrlToCodeMap := (originalUrlToCodeMap s)(originalUrl r := None) \<rparr>"
  have ti: "truthy (codeToIdMap s c) = Some i"
    using store_inv_truthy_code[OF inv, of c] i by simp
  have "deleteUrl s c = (True, ?s')"
    using ti r by (simp add: deleteUrl_def)
  with del have b: "b" and s': "s' = ?s'" by simp_all
  have inv': "store_inv s'" unfolding s' by (rule store_inv_remove[OF inv i r])
  have c0: "codeToIdMap s' c = None" and i0: "urlMap s' i = None"
    and u0: "originalUrlToCodeMap s' (originalUrl r) = None"
    by (simp_all add: s')
  have ci: "codeToIdMap s' c' \<noteq> Some i" for c'
  proof
    assume "codeToIdMap s' c' = Some i"
    from store_inv_code[OF inv' this] i0 show False by auto
  qed
  have uc: "originalUrlToCodeMap s' u' \<noteq> Some c" for u'
  proof
    assume "originalUrlToCodeMap s' u' = Some c"
    from store_inv_url[OF inv' this] c0 show False by auto
  qed
  have recs: "id_url q \<noteq> i \<and> shortCode q \<noteq> c \<and> originalUrl q \<noteq> originalUrl r"
    if "urlMap s' j = Some q" for j q
  proof -
    note f = store_inv_rec[OF inv' that]
    have "j \<noteq> i" using that i0 by auto
    then show ?thesis using f c0 u0 by auto
  qed
  note ex = expand_unknown[OF c0]
  have sh: "sr_message r2 = None \<and>
              getStats s2 (sr_shortCode r2) =
                Some \<lparr> id_url = generateId env, originalUrl = originalUrl r,
                       shortCode = sr_shortCode r2, createdAt_url = createdNow env,
                       clickCount = 0 \<rparr> \<and>
              (truthy (customAlias opts) = None \<and>
               codeToIdMap s' (generateUniqueShortCode (originalUrl r)) = None \<longrightarrow>
                 sr_shortCode r2 = generateUniqueShortCode (originalUrl r)) \<and>
              (truthy (customAlias opts) = None \<and> c = generateUniqueShortCode (originalUrl r) \<longrightarrow>
                 sr_shortCode r2 = c)"
    if "shorten P s' (originalUrl r) opts env = Inr (r2, s2)"
    using shorten_after_delete[OF u0 that] c0 by auto
  show ?thesis
    using b inv' c0 i0 u0 ci uc recs ex sh by blast
qed

lemma deleteUrl_example:
  "deleteUrl example_store1 ''AVLz10'' = (True, example_store)"
  by (simp add: deleteUrl_def truthy_def example_store1_def example_store_def)

lemma createdNow_example2: "createdNow example_env2 = 1700000005000"
  by (simp add: example_env2_def)

lemma shorten_example2:
  "shorten example_parseUrl example_store ''http://a.b'' no_options example_env2 =
     Inr (\<lparr> sr_success = True, sr_shortCode = ''AVLz10'',
             sr_shortUrl = ''https://short.url/AVLz10'', sr_originalUrl = ''http://a.b'',
             sr_message = None, sr_collisionResolved = Some False \<rparr>, example_store2)"
  by (simp add: shorten_def validateUrl_example truthy_def example_store_def example_store2_def
        choose_code_def no_options_def generateUniqueShortCode_example generateId_example2
        createdNow_example2 Let_def)

text \<open>
  The code after deleting and shortening again is the code that was deleted:
  \<open>http://a.b\<close> gets the code \<open>AVLz10\<close> both times.
\<close>

theorem reshorten_same_code_counterexample:
  "shorten example_parseUrl example_store ''http://a.b'' no_options example_env =
     Inr (\<lparr> sr_success = True, sr_shortCode = ''AVLz10'',
             sr_shortUrl = ''https://short.url/AVLz10'', sr_originalUrl = ''http://a.b'',
             sr_message = None, sr_collisionResolved = Some False \<rparr>, example_store1) \<and>
   deleteUrl example_store1 ''AVLz10'' = (True, example_store) \<and>
   shorten example_parseUrl example_store ''http://a.b'' no_options example_env2 =
     Inr (\<lparr> sr_success = True, sr_shortCode = ''AVLz10'',
             sr_shortUrl = ''https://short.url/AVLz10'', sr_originalUrl = ''http://a.b'',
             sr_message = None, sr_collisionResolved = Some False \<rparr>, example_store2)"
  using shorten_example deleteUrl_example shorten_example2 by simp

lemma store_inv_example1: "store_inv example_store1"
proof -
  have h: "store_inv example_store" by (simp add: store_inv_def example_store_def)
  have f: "urlMap example_store (generateId example_env) = None"
    by (simp add: example_store_def)
  show ?thesis by (rule store_inv_shorten[OF h f shorten_example])
qed

theorem delete_then_expand_witness:
  "store_inv example_store1 \<and>
   codeToIdMap example_store1 ''AVLz10'' = Some ''1700000000000-4fzyo82'' \<and>
   urlMap example_store1 ''1700000000000-4fzyo82'' =
     Some \<lparr> id_url = ''1700000000000-4fzyo82'', originalUrl = ''http://a.b'',
            shortCode = ''AVLz10'', createdAt_url = 1700000000000, clickCount = 0 \<rparr> \<and>
   deleteUrl example_store1 ''AVLz10'' = (True, example_store) \<and>
   validateShortCode ''AVLz10'' = None \<and>
   er_message (fst (expand example_store ''AVLz10'')) = Some ''Short URL not found'' \<and>
   truthy (customAlias no_options) = None \<and>
   getStats example_store2 ''AVLz10'' =
     Some \<lparr> id_url = ''1700000005000-b81x2kd'', originalUrl = ''http://a.b'',
            shortCode = ''AVLz10'', createdAt_url = 1700000005000, clickCount = 0 \<rparr>"
proof -
  let ?r = "\<lparr> id_url = ''1700000000000-4fzyo82'', originalUrl = ''http://a.b'',
            shortCode = ''AVLz10'', createdAt_url = 1700000000000, clickCount = 0 \<rparr>"
  have c: "codeToIdMap example_store1 ''AVLz10'' = Some ''1700000000000-4fzyo82''"
    and r: "urlMap example_store1 ''1700000000000-4fzyo82'' = Some ?r"
    by (simp_all add: example_store1_def)
  have v: "validateShortCode ''AVLz10'' = None"
    by (simp add: validateShortCode_def code_char_def MAX_CUSTOM_ALIAS_LENGTH_def)
  have t: "truthy (customAlias no_options) = None"
    by (simp add: truthy_def no_options_def)
  note th = delete_then_expand[OF store_inv_example1 c r deleteUrl_example,
              of example_parseUrl no_options example_env2 _ example_store2]
  have e: "er_message (fst (expand example_store ''AVLz10'')) = Some ''Short URL not found''"
    using th v by blast
  have o: "originalUrl ?r = ''http://a.b''" by simp
  have "getStats example_store2 (sr_shortCode \<lparr> sr_success = True, sr_shortCode = ''AVLz10'',
             sr_shortUrl = ''https://short.url/AVLz10'', sr_originalUrl = ''http://a.b'',
             sr_message = None, sr_collisionResolved = Some False \<rparr>) =
     Some \<lparr> id_url = generateId example_env2, originalUrl = originalUrl ?r,
            shortCode = sr_shortCode \<lparr> sr_success = True, sr_shortCode = ''AVLz10'',
             sr_shortUrl = ''https://short.url/AVLz10'', sr_originalUrl = ''http://a.b'',
             sr_message = None, sr_collisionResolved = Some False \<rparr>,
            createdAt_url = createdNow example_env2, clickCount = 0 \<rparr>"
    using th shorten_example2 unfolding o by blast
  then have g: "getStats example_store2 ''AVLz10'' =
     Some \<lparr> id_url = ''1700000005000-b81x2kd'', originalUrl = ''http://a.b'',
            shortCode = ''AVLz10'', createdAt_url = 1700000005000, clickCount = 0 \<rparr>"
    by (simp add: generateId_example2 createdNow_example2)
  show ?thesis
    using store_inv_example1 c r deleteUrl_example v e t g by simp
qed

subsection \<open>The collision ladder\<close>

lemma loop_step_taken:
  assumes "attempts < MAX_COLLISION_RETRIES" and "round_taken s e u env (Suc attempts)"
  shows "resolveCollision_loop s e u env attempts = resolveCollision_loop s e u env (Suc attempts)"
  using assms
  by (subst resolveCollision_loop.simps)
     (auto simp add: round_taken_def round_candidates_def Let_def)

lemma loop_step_free:
  assumes "attempts < MAX_COLLISION_RETRIES" and "\<not> round_taken s e u env (Suc attempts)"
  shows "\<exists>c \<in> set (round_candidates e u env (Suc attempts)).
           codeToIdMap s c = None \<and>
           resolveCollision_loop s e u env attempts = (Inr c, Suc attempts)"
  using assms
  by (subst resolveCollision_loop.simps)
     (auto simp add: round_taken_def round_candidates_def Let_def)

lemma loop_exit:
  "\<not> attempts < MAX_COLLISION_RETRIES \<Longrightarrow>
     resolveCollision_loop s e u env attempts = (Inl COLLISION_RESOLUTION_FAILED, attempts)"
  by (subst resolveCollision_loop.simps) simp

lemma loop_all_taken:
  assumes "attempts \<le> MAX_COLLISION_RETRIES"
    and "\<And>k. attempts < k \<Longrightarrow> k \<le> MAX_COLLISION_RETRIES \<Longrightarrow> round_taken s e u env k"
  shows "resolveCollision_loop s e u env attempts =
           (Inl COLLISION_RESOLUTION_FAILED, MAX_COLLISION_RETRIES)"
  using assms
proof (induction "MAX_COLLISION_RETRIES - attempts" arbitrary: attempts)
  case 0
  then have "attempts = MAX_COLLISION_RETRIES" by simp
  then show ?case using loop_exit[of attempts s e u env] by simp
next
  case (Suc n)
  then have lt: "attempts < MAX_COLLISION_RETRIES" by simp
  have e: "n = MAX_COLLISION_RETRIES - Suc attempts" using Suc.hyps(2) by simp
  have le: "Suc attempts \<le> MAX_COLLISION_RETRIES" using lt by simp
  have tk: "round_taken s e u env (Suc attempts)"
    using Suc.prems(2)[of "Suc attempts"] le by simp
  have "resolveCollision_loop s e u env (Suc attempts) =
           (Inl COLLISION_RESOLUTION_FAILED, MAX_COLLISION_RETRIES)"
  proof (rule Suc.hyps(1)[OF e le])
    fix k assume "Suc attempts < k" "k \<le> MAX_COLLISION_RETRIES"
    then show "round_taken s e u env k" using Suc.prems(2)[of k] by simp
  qed
  then show ?case using loop_step_taken[OF lt tk] by simp
qed

lemma loop_some_free:
  assumes "attempts \<le> MAX_COLLISION_RETRIES"
    and "attempts < k" "k \<le> MAX_COLLISION_RETRIES" "\<not> round_taken s e u env k"
  shows "\<exists>j c. attempts < j \<and> j \<le> k \<and>
           c \<in> set (round_candidates e u env j) \<and> codeToIdMap s c = None \<and>
           resolveCollision_loop s e u env attempts = (Inr c, j)"
  using assms
proof (induction "MAX_COLLISION_RETRIES - attempts" arbitrary: attempts)
  case 0
  then show ?case by simp
next
  case (Suc n)
  then have lt: "attempts < MAX_COLLISION_RETRIES" by simp
  have e: "n = MAX_COLLISION_RETRIES - Suc attempts" using Suc.hyps(2) by simp
  have le: "Suc attempts \<le> MAX_COLLISION_RETRIES" using lt by simp
  show ?case
  proof (cases "round_taken s e u env (Suc attempts)")
    case True
    then have "k \<noteq> Suc attempts" using Suc.prems(4) by auto
    then have lk: "Suc attempts < k" using Suc.prems(2) by simp
    from Suc.hyps(1)[OF e le lk Suc.prems(3) Suc.prems(4)] obtain j c where
      jc: "Suc attempts < j" "j \<le> k" "c \<in> set (round_candidates e u env j)"
          "codeToIdMap s c = None" "resolveCollision_loop s e u env (Suc attempts) = (Inr c, j)"
      by blast
    have "attempts < j" using jc(1) by simp
    moreover have "resolveCollision_loop s e u env attempts = (Inr c, j)"
      using loop_step_taken[OF lt True] jc(5) by simp
    ultimately show ?thesis using jc(2,3,4) by blast
  next
    case False
    from loop_step_free[OF lt False] obtain c where
      c: "c \<in> set (round_candidates e u env (Suc attempts))" "codeToIdMap s c = None"
         "resolveCollision_loop s e u env attempts = (Inr c, Suc attempts)"
      by blast
    have "attempts < Suc attempts" "Suc attempts \<le> k" using Suc.prems(2) by simp_all
    then show ?thesis using c by blast
  qed
qed

lemma loop_zero_taken:
  assumes "\<forall>k \<in> {1..MAX_COLLISION_RETRIES}. round_taken s e u env k"
  shows "resolveCollision_loop s e u env 0 =
           (Inl COLLISION_RESOLUTION_FAILED, MAX_COLLISION_RETRIES)"
proof (rule loop_all_taken)
  show "0 \<le> MAX_COLLISION_RETRIES" by simp
next
  fix k assume "0 < k" "k \<le> MAX_COLLISION_RETRIES"
  then have "k \<in> {1..MAX_COLLISION_RETRIES}" by simp
  then show "round_taken s e u env k" using assms by blast
qed

lemma loop_zero_free:
  assumes "\<not> (\<forall>k \<in> {1..MAX_COLLISION_RETRIES}. round_taken s e u env k)"
  shows "\<exists>k c. k \<in> {1..MAX_COLLISION_RETRIES} \<and> c \<in> set (round_candidates e u env k) \<and>
            codeToIdMap s c = None \<and> resolveCollision_loop s e u env 0 = (Inr c, k)"
proof -
  from assms obtain k where kin: "k \<in> {1..MAX_COLLISION_RETRIES}"
    and nt: "\<not> round_taken s e u env k"
    by blast
  from kin have k: "0 < k" "k \<le> MAX_COLLISION_RETRIES" by simp_all
  have z: "0 \<le> MAX_COLLISION_RETRIES" by simp
  from loop_some_free[OF z k nt] obtain j c where
    jc: "0 < j" "j \<le> k" "c \<in> set (round_candidates e u env j)" "codeToIdMap s c = None"
        "resolveCollision_loop s e u env 0 = (Inr c, j)"
    by blast
  have "j \<in> {1..MAX_COLLISION_RETRIES}" using jc(1,2) k(2) by simp
  then show ?thesis using jc(3,4,5) by blast
qed

text \<open>
  Claim C7 (collision resolution terminates). \<open>resolveCollision_loop\<close> is a total
  function: its recursion is bounded by the counter \<open>attempts\<close>, which ends at no
  more than \<open>MAX_COLLISION_RETRIES = 5\<close>. It fails exactly when every candidate of
  every one of the five rounds is already assigned, the counter is then exactly 5, and
  \<open>COLLISION_RESOLUTION_FAILED\<close> is the only error it reports; otherwise it returns an
  unassigned candidate of the round at which it stops. When the hash code of a new URL
  is taken and all candidates are assigned, \<open>shorten\<close> fails with
  \<open>COLLISION_RESOLUTION_FAILED\<close>.
\<close>

theorem collision_resolution_terminates:
  "snd (resolveCollision_loop s e u env 0) \<le> MAX_COLLISION_RETRIES \<and>
   MAX_COLLISION_RETRIES = 5 \<and>
   (resolveCollision s e u env = Inl COLLISION_RESOLUTION_FAILED \<longleftrightarrow>
      (\<forall>k \<in> {1..MAX_COLLISION_RETRIES}. round_taken s e u env k)) \<and>
   ((\<forall>k \<in> {1..MAX_COLLISION_RETRIES}. round_taken s e u env k) \<longrightarrow>
      resolveCollision_loop s e u env 0 =
        (Inl COLLISION_RESOLUTION_FAILED, MAX_COLLISION_RETRIES)) \<and>
   (\<forall>err. resolveCollision s e u env = Inl err \<longrightarrow> err = COLLISION_RESOLUTION_FAILED) \<and>
   (\<forall>c. resolveCollision s e u env = Inr c \<longrightarrow>
      codeToIdMap s c = None \<and>
      (\<exists>k \<in> {1..MAX_COLLISION_RETRIES}. c \<in> set (round_candidates e u env k) \<and>
         snd (resolveCollision_loop s e u env 0) = k)) \<and>
   (validateUrl P u = None \<and> truthy (originalUrlToCodeMap s u) = None \<and>
    truthy (customAlias opts) = None \<and> codeToIdMap s (generateUniqueShortCode u) \<noteq> None \<and>
    (\<forall>k \<in> {1..MAX_COLLISION_RETRIES}. round_taken s (generateUniqueShortCode u) u env k) \<longrightarrow>
      shorten P s u opts env = Inl COLLISION_RESOLUTION_FAILED)"
proof -
  have five: "MAX_COLLISION_RETRIES = 5" by (simp add: MAX_COLLISION_RETRIES_def)
  have main: "snd (resolveCollision_loop s e u env 0) \<le> MAX_COLLISION_RETRIES \<and>
   (resolveCollision s e u env = Inl COLLISION_RESOLUTION_FAILED \<longleftrightarrow>
      (\<forall>k \<in> {1..MAX_COLLISION_RETRIES}. round_taken s e u env k)) \<and>
   ((\<forall>k \<in> {1..MAX_COLLISION_RETRIES}. round_taken s e u env k) \<longrightarrow>
      resolveCollision_loop s e u env 0 =
        (Inl COLLISION_RESOLUTION_FAILED, MAX_COLLISION_RETRIES)) \<and>
   (\<forall>err. resolveCollision s e u env = Inl err \<longrightarrow> err = COLLISION_RESOLUTION_FAILED) \<and>
   (\<forall>c. resolveCollision s e u env = Inr c \<longrightarrow>
      codeToIdMap s c = None \<and>
      (\<exists>k \<in> {1..MAX_COLLISION_RETRIES}. c \<in> set (round_candidates e u env k) \<and>
         snd (resolveCollision_loop s e u env 0) = k))"
  proof (cases "\<forall>k \<in> {1..MAX_COLLISION_RETRIES}. round_taken s e u env k")
    case True
    then have "resolveCollision_loop s e u env 0 =
           (Inl COLLISION_RESOLUTION_FAILED, MAX_COLLISION_RETRIES)"
      by (rule loop_zero_taken)
    then show ?thesis using True by (simp add: resolveCollision_def)
  next
    case False
    from loop_zero_free[OF False] obtain k c where kc: "k \<in> {1..MAX_COLLISION_RETRIES}"
        "c \<in> set (round_candidates e u env k)" "codeToIdMap s c = None"
        "resolveCollision_loop s e u env 0 = (Inr c, k)"
      by blast
    have le: "k \<le> MAX_COLLISION_RETRIES" using kc(1) by simp
    have r: "resolveCollision s e u env = Inr c" "snd (resolveCollision_loop s e u env 0) = k"
      using kc(4) by (simp_all add: resolveCollision_def)
    show ?thesis
      unfolding r using False le kc(1,2,3) by auto
  qed
  have sh: "shorten P s u opts env = Inl COLLISION_RESOLUTION_FAILED"
    if a: "validateUrl P u = None \<and> truthy (originalUrlToCodeMap s u) = None \<and>
        truthy (customAlias opts) = None \<and> codeToIdMap s (generateUniqueShortCode u) \<noteq> None \<and>
        (\<forall>k \<in> {1..MAX_COLLISION_RETRIES}. round_taken s (generateUniqueShortCode u) u env k)"
  proof -
    have "resolveCollision_loop s (generateUniqueShortCode u) u env 0 =
           (Inl COLLISION_RESOLUTION_FAILED, MAX_COLLISION_RETRIES)"
      using a loop_zero_taken[of s "generateUniqueShortCode u" u env] by blast
    then have "resolveCollision s (generateUniqueShortCode u) u env = Inl COLLISION_RESOLUTION_FAILED"
      by (simp add: resolveCollision_def)
    then have "choose_code s u opts env = Inl COLLISION_RESOLUTION_FAILED"
      using a by (auto simp: choose_code_def Let_def)
    then show ?thesis using a by (simp add: shorten_def)
  qed
  show ?thesis using five main sh by blast
qed

lemma taken_example:
  "k \<in> {1..MAX_COLLISION_RETRIES} \<Longrightarrow>
     round_taken example_full_store ''AVLz10'' ''http://a.b'' example_env k"
proof -
  assume "k \<in> {1..MAX_COLLISION_RETRIES}"
  then have "k = 1 \<or> k = 2 \<or> k = 3 \<or> k = 4 \<or> k = 5"
    by (simp add: MAX_COLLISION_RETRIES_def) arith
  then consider "k = 1" | "k = 2" | "k = 3" | "k = 4" | "k = 5"
    by blast
  then show ?thesis
    by cases
      (simp_all add: round_taken_def round_candidates_def example_full_store_def example_env_def
        slice_to_minus2_def slice_from_minus2_def substring_def toStringRadix.simps
        radix_digit_def generateHash_def hash_step_def toInt32_def encodeBase62_def
        encodeBase62_loop.simps BASE62_CHARS_def DEFAULT_SHORT_CODE_LENGTH_def)
qed

theorem collision_resolution_terminates_witness:
  "validateUrl example_parseUrl ''http://a.b'' = None \<and>
   codeToIdMap example_full_store (generateUniqueShortCode ''http://a.b'') = Some ''i0'' \<and>
   round_taken example_full_store ''AVLz10'' ''http://a.b'' example_env 1 \<and>
   round_taken example_full_store ''AVLz10'' ''http://a.b'' example_env 5 \<and>
   resolveCollision_loop example_full_store ''AVLz10'' ''http://a.b'' example_env 0 =
     (Inl COLLISION_RESOLUTION_FAILED, 5) \<and>
   shorten example_parseUrl example_full_store ''http://a.b'' no_options example_env =
     Inl COLLISION_RESOLUTION_FAILED"
proof -
  have g: "codeToIdMap example_full_store (generateUniqueShortCode ''http://a.b'') = Some ''i0''"
    by (simp add: generateUniqueShortCode_example example_full_store_def)
  have t: "truthy (originalUrlToCodeMap example_full_store ''http://a.b'') = None"
          "truthy (customAlias no_options) = None"
    by (simp_all add: truthy_def example_full_store_def no_options_def)
  have all: "\<forall>k \<in> {1..MAX_COLLISION_RETRIES}.
               round_taken example_full_store ''AVLz10'' ''http://a.b'' example_env k"
    using taken_example by blast
  have k: "(1::nat) \<in> {1..MAX_COLLISION_RETRIES}" "(5::nat) \<in> {1..MAX_COLLISION_RETRIES}"
    by (simp_all add: MAX_COLLISION_RETRIES_def)
  from collision_resolution_terminates
         [of example_full_store "''AVLz10''" "''http://a.b''" example_env example_parseUrl no_options]
  show ?thesis
    using validateUrl_example g t all k
    by (simp add: generateUniqueShortCode_example)
qed

end
